theory Spec2Isabelle
  imports Complex_Main "HOL-Library.Multiset"
begin

section \<open>The adaptive multigrid of PIV/multiGrid.py\<close>

text \<open>
  The mesh of \<^verbatim>\<open>PIV/multiGrid.py\<close> is a graph of Python objects: every
  \<^verbatim>\<open>GridCell\<close> refers to its parent, its children and its four neighbours.
  The objects live in an explicit store, a list of cells; a reference to a cell is its
  position in the store (its address), and a new object takes the next free address.
  The correlation windows are referred to by their index into \<^verbatim>\<open>multigrid.windows\<close>,
  as the source does with \<^verbatim>\<open>id_bl\<close>, ..., \<^verbatim>\<open>id_tr\<close>.

  An exception leaves the mutations made before it in place, and the caller may catch
  it and go on (\<^verbatim>\<open>adaptive_split_peak_value_cells\<close> does). So every method that
  mutates the mesh returns the error, if any, together with the mesh as it is left.
\<close>

subsection \<open>Errors\<close>

datatype error = ValueError | AttributeError | IndexError | TypeError
  | ZeroDivisionError | RecursionError

type_synonym addr = nat

type_synonym 's outcome = "error option \<times> 's"

definition and_then :: "'s outcome \<Rightarrow> ('s \<Rightarrow> 's outcome) \<Rightarrow> 's outcome" where
  "and_then r f = (case r of (None, s) \<Rightarrow> f s | (Some e, s) \<Rightarrow> (Some e, s))"

subsection \<open>Correlation windows\<close>

record CorrWindow =
  cw_x :: int
  cw_y :: int
  cw_WS :: int

text \<open>Python's \<^verbatim>\<open>int(r)\<close> on a fraction: truncation towards zero.\<close>

definition py_int :: "rat \<Rightarrow> int" where
  "py_int r = (if 0 \<le> r then \<lfloor>r\<rfloor> else \<lceil>r\<rceil>)"

text \<open>
  Modelled from the spec: the sample-point factory \<^verbatim>\<open>PIV.corr_window.CorrWindow\<close>
  is imported by multiGrid.py but is not among the sources. The spec describes a point as
  integer pixel coordinates (x, y) with an assigned window size, made by
  \<^verbatim>\<open>create(x, y, window_size)\<close>; the factory here stores the coordinates as integers
  and the window size as given. The cell code hands it the quotient of a true division,
  hence the rational arguments.
\<close>

definition CorrWindow_init :: "rat \<Rightarrow> rat \<Rightarrow> int \<Rightarrow> CorrWindow" where
  "CorrWindow_init px py ws = \<lparr>cw_x = py_int px, cw_y = py_int py, cw_WS = ws\<rparr>"

subsection \<open>Grids\<close>

text \<open>\<^verbatim>\<open>np.arange(0, stop, step)\<close> on integers; a zero step raises.\<close>

definition arange :: "int \<Rightarrow> int \<Rightarrow> error + int list" where
  "arange stop step =
     (if step = 0 then Inl ZeroDivisionError
      else Inr (map (\<lambda>k. int k * step) [0 ..< nat (- ((- stop) div step))]))"

record Grid =
  g_img_dim :: "int \<times> int"
  g_spacing :: int
  x_vec :: "int list"
  y_vec :: "int list"
  g_ny :: nat
  g_nx :: nat
  g_array :: "nat option list list"

definition Grid_init :: "int \<times> int \<Rightarrow> int \<Rightarrow> error + Grid" where
  "Grid_init dims sp =
     (case arange (snd dims) sp of
        Inl e \<Rightarrow> Inl e
      | Inr xv \<Rightarrow>
          (case arange (fst dims) sp of
             Inl e \<Rightarrow> Inl e
           | Inr yv \<Rightarrow>
               Inr \<lparr>g_img_dim = dims, g_spacing = sp, x_vec = xv, y_vec = yv,
                    g_ny = length yv, g_nx = length xv,
                    g_array = replicate (length yv) (replicate (length xv) None)\<rparr>))"

text \<open>\<^verbatim>\<open>grid._array[r][c] = cw_list[v]\<close>: either index out of range raises.\<close>

definition grid_set :: "Grid \<Rightarrow> nat \<Rightarrow> nat \<Rightarrow> nat \<Rightarrow> error + Grid" where
  "grid_set g r c v =
     (if r < length (g_array g) \<and> c < length (g_array g ! r)
      then Inr (g\<lparr>g_array := (g_array g)[r := (g_array g ! r)[c := Some v]]\<rparr>)
      else Inl IndexError)"

fun grid_set_all :: "Grid \<Rightarrow> (nat \<times> nat \<times> nat) list \<Rightarrow> Grid outcome" where
  "grid_set_all g [] = (None, g)"
| "grid_set_all g ((r, c, v) # rest) =
     (case grid_set g r c v of
        Inl e \<Rightarrow> (Some e, g)
      | Inr g' \<Rightarrow> grid_set_all g' rest)"

subsection \<open>Cells\<close>

datatype quad = BL | BR | TL | TR

datatype dir = North | East | South | West

record GridCell =
  id_bl :: nat
  id_br :: nat
  id_tl :: nat
  id_tr :: nat
  tier :: nat
  children :: "(quad \<Rightarrow> addr) option"
  parent :: "addr option"
  north :: "addr option"
  east :: "addr option"
  south :: "addr option"
  west :: "addr option"
  ix :: nat
  iy :: nat

text \<open>The dictionary \<^verbatim>\<open>{'bl': bl, 'br': br, 'tl': tl, 'tr': tr}\<close>.\<close>

definition mk_children :: "addr \<Rightarrow> addr \<Rightarrow> addr \<Rightarrow> addr \<Rightarrow> quad \<Rightarrow> addr" where
  "mk_children c_bl c_br c_tl c_tr q = (case q of BL \<Rightarrow> c_bl | BR \<Rightarrow> c_br | TL \<Rightarrow> c_tl | TR \<Rightarrow> c_tr)"

text \<open>
  \<^verbatim>\<open>GridCell.__init__\<close> reads \<^verbatim>\<open>cw_list[id]\<close> for its four corners, which raises
  when an index is out of range. The attributes \<^verbatim>\<open>ix\<close>, \<^verbatim>\<open>iy\<close> are set by the
  caller right after.
\<close>

definition GridCell_init :: "CorrWindow list \<Rightarrow> nat \<Rightarrow> nat \<Rightarrow> nat \<Rightarrow> nat \<Rightarrow> error + GridCell" where
  "GridCell_init cw_list c_bl c_br c_tl c_tr =
     (if c_bl < length cw_list \<and> c_br < length cw_list \<and> c_tl < length cw_list \<and> c_tr < length cw_list
      then Inr \<lparr>id_bl = c_bl, id_br = c_br, id_tl = c_tl, id_tr = c_tr, tier = 0,
                children = None, parent = None,
                north = None, east = None, south = None, west = None, ix = 0, iy = 0\<rparr>
      else Inl IndexError)"

definition has_children :: "GridCell \<Rightarrow> bool" where
  "has_children c = (if children c = None then False else True)"

text \<open>The four neighbour attributes, by direction.\<close>

fun nb :: "dir \<Rightarrow> GridCell \<Rightarrow> addr option" where
  "nb North c = north c"
| "nb East c = east c"
| "nb South c = south c"
| "nb West c = west c"

fun set_nb :: "dir \<Rightarrow> addr option \<Rightarrow> GridCell \<Rightarrow> GridCell" where
  "set_nb North v c = c\<lparr>north := v\<rparr>"
| "set_nb East v c = c\<lparr>east := v\<rparr>"
| "set_nb South v c = c\<lparr>south := v\<rparr>"
| "set_nb West v c = c\<lparr>west := v\<rparr>"

text \<open>The assignment \<^verbatim>\<open>cell.north = v\<close> (or east, south, west) on the object at address i.\<close>

definition assign_nb :: "dir \<Rightarrow> addr \<Rightarrow> addr option \<Rightarrow> GridCell list \<Rightarrow> GridCell list" where
  "assign_nb d i v st = st[i := set_nb d v (st ! i)]"

subsection \<open>The multigrid\<close>

record MultiGrid =
  img_dim :: "int \<times> int"
  spacing :: int
  windows :: "CorrWindow list"
  grids :: "Grid list"
  cells :: "addr list"
  max_tier :: nat
  cells_in_top_tier :: nat
  store :: "GridCell list"

text \<open>
  \<^verbatim>\<open>cell.bl_win\<close> is the object \<^verbatim>\<open>cw_list[id_bl]\<close> taken when the cell is made. The
  window list only grows and its entries are never replaced, so the object is the entry
  at that index.
\<close>

definition bl_win :: "MultiGrid \<Rightarrow> GridCell \<Rightarrow> CorrWindow" where
  "bl_win s c = windows s ! id_bl c"

definition br_win :: "MultiGrid \<Rightarrow> GridCell \<Rightarrow> CorrWindow" where
  "br_win s c = windows s ! id_br c"

definition tl_win :: "MultiGrid \<Rightarrow> GridCell \<Rightarrow> CorrWindow" where
  "tl_win s c = windows s ! id_tl c"

definition tr_win :: "MultiGrid \<Rightarrow> GridCell \<Rightarrow> CorrWindow" where
  "tr_win s c = windows s ! id_tr c"

subsubsection \<open>Construction\<close>

text \<open>The first double loop of \<^verbatim>\<open>MultiGrid.__init__\<close>: one cell per pair (rr, cc).\<close>

fun make_cells :: "CorrWindow list \<Rightarrow> nat \<Rightarrow> (nat \<times> nat) list \<Rightarrow> error + GridCell list" where
  "make_cells cw_list n_cols [] = Inr []"
| "make_cells cw_list n_cols ((rr, cc) # rest) =
     (let c_bl = rr * n_cols + cc;
          c_br = c_bl + 1;
          c_tl = c_bl + n_cols;
          c_tr = c_tl + 1
      in case GridCell_init cw_list c_bl c_br c_tl c_tr of
           Inl e \<Rightarrow> Inl e
         | Inr gc \<Rightarrow>
             (case make_cells cw_list n_cols rest of
                Inl e \<Rightarrow> Inl e
              | Inr gcs \<Rightarrow> Inr (gc\<lparr>tier := 0, ix := cc, iy := rr\<rparr> # gcs)))"

text \<open>
  The second double loop: the neighbours of cell number \<open>cn = rr * n_cc + cc\<close>. The
  cell numbers it reads are in range by the loop bounds and the four tests.
\<close>

definition set_neighbours :: "nat \<Rightarrow> nat \<Rightarrow> nat \<times> nat \<Rightarrow> GridCell \<Rightarrow> GridCell" where
  "set_neighbours n_rc n_cc p gc =
     (case p of (rr, cc) \<Rightarrow>
        let cn = rr * n_cc + cc
        in gc\<lparr>north := (if rr \<noteq> n_rc - 1 then Some (cn + n_cc) else north gc),
               east := (if cc \<noteq> n_cc - 1 then Some (cn + 1) else east gc),
               south := (if rr \<noteq> 0 then Some (cn - n_cc) else south gc),
               west := (if cc \<noteq> 0 then Some (cn - 1) else west gc)\<rparr>)"

definition construct :: "int \<times> int \<Rightarrow> int \<Rightarrow> int \<Rightarrow> error + MultiGrid" where
  "construct dims sp ws =
     (case arange (snd dims) sp of
        Inl e \<Rightarrow> Inl e
      | Inr xv \<Rightarrow>
     (case arange (fst dims) sp of
        Inl e \<Rightarrow> Inl e
      | Inr yv \<Rightarrow>
     (let cw_list = concat (map (\<lambda>py. map (\<lambda>px. CorrWindow_init (of_int px) (of_int py) ws) xv) yv)
      in case Grid_init dims sp of
        Inl e \<Rightarrow> Inl e
      | Inr g \<Rightarrow>
     (let g0 = g\<lparr>g_array := map (\<lambda>ii. map (\<lambda>jj. Some (jj + ii * length xv)) [0 ..< length xv])
                               [0 ..< length yv]\<rparr>;
          n_rows = length yv;
          n_cols = length xv;
          n_rc = n_rows - 1;
          n_cc = n_cols - 1;
          rcs = List.product [0 ..< n_rc] [0 ..< n_cc]
      in case make_cells cw_list n_cols rcs of
        Inl e \<Rightarrow> Inl e
      | Inr gcs \<Rightarrow>
          Inr \<lparr>img_dim = dims, spacing = sp, windows = cw_list, grids = [g0],
               cells = [0 ..< length gcs], max_tier = 0,
               cells_in_top_tier = length gcs,
               store = map (\<lambda>(p, gc). set_neighbours n_rc n_cc p gc) (zip rcs gcs)\<rparr>))))"


definition n_cells :: "MultiGrid \<Rightarrow> nat" where
  "n_cells s = length (cells s)"

subsubsection \<open>Adding a tier\<close>

text \<open>
  \<^verbatim>\<open>h_curr = int(self.spacing / (2**self.max_tier))\<close>: a true division, cut towards
  zero. \<^verbatim>\<open>h_new = h_curr / 2\<close> is whole exactly when \<open>h_curr\<close> is even, and then
  \<^verbatim>\<open>int(h_new)\<close> is \<open>h_curr div 2\<close>. The arithmetic is exact here; the source
  computes in double precision, which agrees for spacings below \<open>2 ^ 53\<close>.
\<close>

definition h_curr :: "MultiGrid \<Rightarrow> int" where
  "h_curr s = py_int (of_int (spacing s) / of_int (2 ^ max_tier s))"

definition new_tier :: "MultiGrid \<Rightarrow> MultiGrid outcome" where
  "new_tier s =
     (if even (h_curr s)
      then (let s1 = s\<lparr>max_tier := max_tier s + 1\<rparr>
            in case Grid_init (img_dim s1) (h_curr s div 2) of
                 Inl e \<Rightarrow> (Some e, s1)
               | Inr g \<Rightarrow> (None, s1\<lparr>grids := grids s1 @ [g]\<rparr>))
      else (Some ValueError, s))"

subsubsection \<open>Splitting a cell\<close>

definition neighbour_children :: "GridCell list \<Rightarrow> addr option \<Rightarrow> (quad \<Rightarrow> addr) option" where
  "neighbour_children st n = (case n of None \<Rightarrow> None | Some i \<Rightarrow> children (st ! i))"

definition append_window :: "MultiGrid \<Rightarrow> CorrWindow \<Rightarrow> nat \<times> MultiGrid" where
  "append_window s w = (length (windows s), s\<lparr>windows := windows s @ [w]\<rparr>)"

text \<open>
  \<^verbatim>\<open>create_new_corrWindows\<close>: the five points of a split, in the order left, bottom,
  centre, top, right. A point on an edge is taken from the children of the neighbour
  across that edge when that neighbour exists and has children; otherwise it is made
  and appended, its index being \<^verbatim>\<open>n_windows - 1\<close> after the append.
\<close>

definition create_new_corrWindows :: "MultiGrid \<Rightarrow> addr \<Rightarrow> (nat \<times> nat \<times> nat \<times> nat \<times> nat) \<times> MultiGrid" where
  "create_new_corrWindows s a =
     (let c = store s ! a;
          st = store s;
          bl_x = cw_x (bl_win s c); bl_y = cw_y (bl_win s c);
          br_x = cw_x (br_win s c); tl_y = cw_y (tl_win s c);
          bl_WS = cw_WS (bl_win s c);
          ctr_x = (of_int bl_x + of_int br_x) / 2;
          ctr_y = (of_int bl_y + of_int tl_y) / 2;
          (left_mid, s1) =
            (case neighbour_children st (west c) of
               Some k \<Rightarrow> (id_tr (st ! k BR), s)
             | None \<Rightarrow> append_window s (CorrWindow_init (of_int bl_x) ctr_y bl_WS));
          (ctr_btm, s2) =
            (case neighbour_children st (south c) of
               Some k \<Rightarrow> (id_tr (st ! k TL), s1)
             | None \<Rightarrow> append_window s1 (CorrWindow_init ctr_x (of_int bl_y) bl_WS));
          (ctr_mid, s3) = append_window s2 (CorrWindow_init ctr_x ctr_y bl_WS);
          (ctr_top, s4) =
            (case neighbour_children st (north c) of
               Some k \<Rightarrow> (id_bl (st ! k BR), s3)
             | None \<Rightarrow> append_window s3 (CorrWindow_init ctr_x (of_int tl_y) bl_WS));
          (right_mid, s5) =
            (case neighbour_children st (east c) of
               Some k \<Rightarrow> (id_tl (st ! k BL), s4)
             | None \<Rightarrow> append_window s4 (CorrWindow_init (of_int br_x) ctr_y bl_WS))
      in ((left_mid, ctr_btm, ctr_mid, ctr_top, right_mid), s5))"

text \<open>
  One block of \<^verbatim>\<open>update_child_neighbours\<close>: when the neighbour in direction d has
  children, the two children \<open>q1\<close>, \<open>q2\<close> of this cell on that side and the two
  children \<open>r1\<close>, \<open>r2\<close> of the neighbour facing them are made neighbours of each
  other, by four assignments in the order of the source.
\<close>

definition stitch :: "dir \<Rightarrow> dir \<Rightarrow> quad \<Rightarrow> quad \<Rightarrow> quad \<Rightarrow> quad \<Rightarrow>
    (quad \<Rightarrow> addr) \<Rightarrow> addr option \<Rightarrow> GridCell list \<Rightarrow> GridCell list" where
  "stitch d back q1 r1 q2 r2 k n st =
     (case n of
        None \<Rightarrow> st
      | Some i \<Rightarrow>
          (case children (st ! i) of
             None \<Rightarrow> st
           | Some ney_child \<Rightarrow>
               assign_nb back (ney_child r2) (Some (k q2))
                 (assign_nb back (ney_child r1) (Some (k q1))
                   (assign_nb d (k q2) (Some (ney_child r2))
                     (assign_nb d (k q1) (Some (ney_child r1)) st)))))"

text \<open>
  \<^verbatim>\<open>update_child_neighbours\<close>: north, east, south, west. Reading
  \<^verbatim>\<open>self.children['bl']\<close> on a cell without children raises.
\<close>

definition update_child_neighbours :: "GridCell list \<Rightarrow> addr \<Rightarrow> (GridCell list) outcome" where
  "update_child_neighbours st a =
     (case children (st ! a) of
        None \<Rightarrow> (Some TypeError, st)
      | Some k \<Rightarrow>
          (let st1 = stitch North South TL BL TR BR k (north (st ! a)) st;
               st2 = stitch East West BR BL TR TL k (east (st1 ! a)) st1;
               st3 = stitch South North BL TL BR TR k (south (st2 ! a)) st2;
               st4 = stitch West East BL BR TL TR k (west (st3 ! a)) st3
           in (None, st4)))"

text \<open>
  \<^verbatim>\<open>split_neighbs_if_needed\<close>, one direction: when the cell has no neighbour there
  and its parent has one, that neighbour of the parent is split. The parent is read
  without a test. The recursive call \<^verbatim>\<open>self.parent.north.split()\<close> is the argument
  \<open>sp\<close>.
\<close>

definition split_parent_neighb :: "(MultiGrid \<Rightarrow> addr \<Rightarrow> MultiGrid outcome) \<Rightarrow> dir \<Rightarrow>
    addr \<Rightarrow> MultiGrid \<Rightarrow> MultiGrid outcome" where
  "split_parent_neighb sp d a s =
     (if nb d (store s ! a) = None
      then (case parent (store s ! a) of
              None \<Rightarrow> (Some AttributeError, s)
            | Some p \<Rightarrow>
                (case nb d (store s ! p) of
                   None \<Rightarrow> (None, s)
                 | Some n \<Rightarrow> sp s n))
      else (None, s))"

definition split_neighbs_if_needed :: "(MultiGrid \<Rightarrow> addr \<Rightarrow> MultiGrid outcome) \<Rightarrow>
    MultiGrid \<Rightarrow> addr \<Rightarrow> MultiGrid outcome" where
  "split_neighbs_if_needed sp s a =
     and_then (and_then (and_then (split_parent_neighb sp North a s)
       (split_parent_neighb sp East a))
       (split_parent_neighb sp South a))
       (split_parent_neighb sp West a)"

text \<open>
  Registering the five points in the grid of the children's tier:
  \<^verbatim>\<open>tmp_grid = self.multigrid.grids[bl.tier]\<close> and five writes, each of which may be
  out of range; the writes before a failing one stay.
\<close>

definition register_windows :: "nat \<Rightarrow> nat \<Rightarrow> nat \<Rightarrow> nat \<times> nat \<times> nat \<times> nat \<times> nat \<Rightarrow>
    MultiGrid \<Rightarrow> MultiGrid outcome" where
  "register_windows t ix_bl iy_bl ids s =
     (case ids of (lm, cb, cm, ct, rm) \<Rightarrow>
        if t < length (grids s)
        then (case grid_set_all (grids s ! t)
                     [(iy_bl + 1, ix_bl, lm), (iy_bl + 0, ix_bl + 1, cb),
                      (iy_bl + 1, ix_bl + 1, cm), (iy_bl + 2, ix_bl + 1, ct),
                      (iy_bl + 1, ix_bl + 2, rm)] of
                (e, g) \<Rightarrow> (e, s\<lparr>grids := (grids s)[t := g]\<rparr>))
        else (Some IndexError, s))"

text \<open>
  The four new cell objects take the addresses \<open>n\<close>, \<open>n + 1\<close>, \<open>n + 2\<close>, \<open>n + 3\<close>
  (bl, br, tl, tr) and get their tier, parent and grid index; the split cell gets its
  children.
\<close>

definition attach_children :: "addr \<Rightarrow> GridCell \<Rightarrow> GridCell \<Rightarrow> GridCell \<Rightarrow> GridCell \<Rightarrow>
    GridCell list \<Rightarrow> GridCell list" where
  "attach_children a c_bl c_br c_tl c_tr st =
     (let n = length st;
          c = st ! a;
          t = tier c + 1
      in st[a := c\<lparr>children := Some (mk_children n (n + 1) (n + 2) (n + 3))\<rparr>] @
         [c_bl\<lparr>tier := t, parent := Some a, ix := ix c * 2, iy := iy c * 2\<rparr>,
          c_br\<lparr>tier := t, parent := Some a, ix := ix c * 2 + 1, iy := iy c * 2\<rparr>,
          c_tl\<lparr>tier := t, parent := Some a, ix := ix c * 2, iy := iy c * 2 + 1\<rparr>,
          c_tr\<lparr>tier := t, parent := Some a, ix := ix c * 2 + 1, iy := iy c * 2 + 1\<rparr>])"

text \<open>The known neighbours among the four children.\<close>

definition wire_children :: "addr \<Rightarrow> addr \<Rightarrow> addr \<Rightarrow> addr \<Rightarrow> GridCell list \<Rightarrow> GridCell list" where
  "wire_children c_bl c_br c_tl c_tr st =
     assign_nb West c_tr (Some c_tl) (assign_nb South c_tr (Some c_br)
       (assign_nb East c_tl (Some c_tr) (assign_nb South c_tl (Some c_bl)
         (assign_nb West c_br (Some c_bl) (assign_nb North c_br (Some c_tr)
           (assign_nb East c_bl (Some c_br) (assign_nb North c_bl (Some c_tl) st)))))))"

text \<open>
  The part of \<^verbatim>\<open>GridCell.split\<close> after the neighbours have been dealt with: new
  points, new cells, a new tier when the children are deeper than any tier so far,
  registration in the grid, neighbours, and at last the four appends to
  \<^verbatim>\<open>multigrid.cells\<close>.
\<close>

definition split_body :: "MultiGrid \<Rightarrow> addr \<Rightarrow> MultiGrid outcome" where
  "split_body s a =
     (case create_new_corrWindows s a of
        ((lm, cb, cm, ct, rm), s1) \<Rightarrow>
     (let c = store s1 ! a; cw_list = windows s1
      in case GridCell_init cw_list (id_bl c) cb lm cm of
        Inl e \<Rightarrow> (Some e, s1)
      | Inr c_bl \<Rightarrow>
     (case GridCell_init cw_list cb (id_br c) cm rm of
        Inl e \<Rightarrow> (Some e, s1)
      | Inr c_br \<Rightarrow>
     (case GridCell_init cw_list lm cm (id_tl c) ct of
        Inl e \<Rightarrow> (Some e, s1)
      | Inr c_tl \<Rightarrow>
     (case GridCell_init cw_list cm rm ct (id_tr c) of
        Inl e \<Rightarrow> (Some e, s1)
      | Inr c_tr \<Rightarrow>
     (let n = length (store s1);
          t = tier c + 1;
          s2 = s1\<lparr>store := attach_children a c_bl c_br c_tl c_tr (store s1)\<rparr>
      in and_then (and_then (if t > max_tier s2 then new_tier s2 else (None, s2))
           (register_windows t (ix c * 2) (iy c * 2) (lm, cb, cm, ct, rm)))
           (\<lambda>s4. case update_child_neighbours
                        (wire_children n (n + 1) (n + 2) (n + 3) (store s4)) a of
                    (Some e, st) \<Rightarrow> (Some e, s4\<lparr>store := st\<rparr>)
                  | (None, st) \<Rightarrow>
                      (None, s4\<lparr>store := st,
                                cells := cells s4 @ [n, n + 1, n + 2, n + 3]\<rparr>))))))))"

text \<open>
  \<^verbatim>\<open>GridCell.split\<close>. The first argument bounds the depth of the recursion through
  \<^verbatim>\<open>split_neighbs_if_needed\<close>, as the interpreter's recursion limit does; at depth
  zero the call raises.
\<close>

primrec split :: "nat \<Rightarrow> MultiGrid \<Rightarrow> addr \<Rightarrow> MultiGrid outcome" where
  "split 0 s a = (Some RecursionError, s)"
| "split (Suc depth) s a =
     (if has_children (store s ! a) then (Some ValueError, s)
      else and_then
             (if tier (store s ! a) > 0 then split_neighbs_if_needed (split depth) s a
              else (None, s))
             (\<lambda>s1. split_body s1 a))"

subsubsection \<open>Leaf cells\<close>

text \<open>
  \<^verbatim>\<open>get_all_leaf_cells\<close> and its inner \<^verbatim>\<open>add_children\<close>: a cell without children
  is appended to the list, a cell with children hands on to its children in the order
  of the dictionary (bl, br, tl, tr). The first argument bounds the depth of the
  recursion; running out of it is the value \<open>None\<close> (a \<^verbatim>\<open>RecursionError\<close>).
\<close>

fun collect :: "(addr \<Rightarrow> addr list option) \<Rightarrow> addr list \<Rightarrow> addr list option" where
  "collect f [] = Some []"
| "collect f (c # cs) =
     (case f c of
        None \<Rightarrow> None
      | Some l \<Rightarrow> (case collect f cs of None \<Rightarrow> None | Some ls \<Rightarrow> Some (l @ ls)))"

primrec add_children :: "nat \<Rightarrow> GridCell list \<Rightarrow> addr \<Rightarrow> addr list option" where
  "add_children 0 st c = None"
| "add_children (Suc depth) st c =
     (case children (st ! c) of
        None \<Rightarrow> Some [c]
      | Some k \<Rightarrow> collect (add_children depth st) (map k [BL, BR, TL, TR]))"

definition get_all_leaf_cells :: "nat \<Rightarrow> MultiGrid \<Rightarrow> addr list option" where
  "get_all_leaf_cells depth s =
     collect (add_children depth (store s)) (take (cells_in_top_tier s) (cells s))"

subsubsection \<open>Uniform refinement\<close>

text \<open>
  \<^verbatim>\<open>split_all_cells\<close>: \<^verbatim>\<open>n = self.n_cells\<close> is read once, then
  \<^verbatim>\<open>self.cells[i].split()\<close> for \<open>i\<close> from 0 to \<open>n - 1\<close>; an exception ends the
  loop and goes to the caller.
\<close>

fun split_each :: "nat \<Rightarrow> MultiGrid \<Rightarrow> nat list \<Rightarrow> MultiGrid outcome" where
  "split_each depth s [] = (None, s)"
| "split_each depth s (i # rest) =
     (case split depth s (cells s ! i) of
        (Some e, s') \<Rightarrow> (Some e, s')
      | (None, s') \<Rightarrow> split_each depth s' rest)"

definition split_all_cells :: "nat \<Rightarrow> MultiGrid \<Rightarrow> MultiGrid outcome" where
  "split_all_cells depth s = split_each depth s [0 ..< n_cells s]"

subsubsection \<open>Refinement by an objective function\<close>

text \<open>A Python slice \<^verbatim>\<open>xs[lo:hi]\<close> with integer bounds.\<close>

definition slice_index :: "nat \<Rightarrow> int \<Rightarrow> nat" where
  "slice_index n i = nat (min (int n) (max 0 (if i < 0 then i + int n else i)))"

definition py_slice :: "int \<Rightarrow> int \<Rightarrow> 'a list \<Rightarrow> 'a list" where
  "py_slice lo hi xs =
     (let l = slice_index (length xs) lo; h = slice_index (length xs) hi
      in take (h - l) (drop l xs))"

text \<open>
  \<^verbatim>\<open>cell.coordinates\<close>: the corners anticlockwise from the bottom left, so entry 0
  is the bottom-left and entry 2 the top-right corner.
\<close>

definition coordinates :: "MultiGrid \<Rightarrow> GridCell \<Rightarrow> (int \<times> int) list" where
  "coordinates s c =
     [(cw_x (bl_win s c), cw_y (bl_win s c)), (cw_x (br_win s c), cw_y (br_win s c)),
      (cw_x (tr_win s c), cw_y (tr_win s c)), (cw_x (tl_win s c), cw_y (tl_win s c))]"

text \<open>
  The peak of the objective function in a cell:
  \<^verbatim>\<open>np.max(obj_func[bl[1]:tr[1], bl[0]:tr[0]])\<close>. The array is a list of rows;
  \<^verbatim>\<open>np.max\<close> of an array without elements raises, which is \<open>None\<close> here.
\<close>

definition peak_value :: "MultiGrid \<Rightarrow> ('v :: linorder) list list \<Rightarrow> addr \<Rightarrow> 'v option" where
  "peak_value s obj_func cell =
     (let c_bl = coordinates s (store s ! cell) ! 0;
          c_tr = coordinates s (store s ! cell) ! 2;
          sub_region = map (py_slice (fst c_bl) (fst c_tr)) (py_slice (snd c_bl) (snd c_tr) obj_func)
      in if concat sub_region = [] then None else Some (Max (set (concat sub_region))))"

fun peak_values :: "MultiGrid \<Rightarrow> ('v :: linorder) list list \<Rightarrow> addr list \<Rightarrow> 'v list option" where
  "peak_values s obj_func [] = Some []"
| "peak_values s obj_func (cell # rest) =
     (case peak_value s obj_func cell of
        None \<Rightarrow> None
      | Some v \<Rightarrow> (case peak_values s obj_func rest of None \<Rightarrow> None | Some vs \<Rightarrow> Some (v # vs)))"

text \<open>
  The loop over the ranked cells. A split that raises is passed over, whatever it
  raised; a split that returns counts, and the loop ends when the count equals
  \<open>max_splits\<close>. The result is the final count and the mesh.
\<close>

fun split_ranked :: "nat \<Rightarrow> nat \<Rightarrow> nat \<Rightarrow> MultiGrid \<Rightarrow> addr list \<Rightarrow> nat \<times> MultiGrid" where
  "split_ranked depth max_splits split_counter s [] = (split_counter, s)"
| "split_ranked depth max_splits split_counter s (cell # rest) =
     (case split depth s cell of
        (None, s') \<Rightarrow>
          if split_counter + 1 = max_splits then (split_counter + 1, s')
          else split_ranked depth max_splits (split_counter + 1) s' rest
      | (Some e, s') \<Rightarrow> split_ranked depth max_splits split_counter s' rest)"

text \<open>
  \<^verbatim>\<open>adaptive_split_peak_value_cells\<close>. \<^verbatim>\<open>np.argsort\<close> is the parameter
  \<open>argsort\<close>: it gives the indices that sort the peaks in ascending order, and how it
  orders equal peaks is its own affair. \<^verbatim>\<open>leaf_cells[I[::-1]]\<close> are the cells in the
  reverse of that order.
\<close>

definition ranked_cells :: "(('v :: linorder) list \<Rightarrow> nat list) \<Rightarrow> 'v list \<Rightarrow> addr list \<Rightarrow> addr list" where
  "ranked_cells argsort peaks leaf_cells = map (\<lambda>i. leaf_cells ! i) (rev (argsort peaks))"

definition adaptive_split_peak_value_cells ::
    "(('v :: linorder) list \<Rightarrow> nat list) \<Rightarrow> nat \<Rightarrow> 'v list list \<Rightarrow> MultiGrid \<Rightarrow> MultiGrid outcome" where
  "adaptive_split_peak_value_cells argsort depth obj_func s =
     (case get_all_leaf_cells depth s of
        None \<Rightarrow> (Some RecursionError, s)
      | Some leaf_cells \<Rightarrow>
          (case peak_values s obj_func leaf_cells of
             None \<Rightarrow> (Some ValueError, s)
           | Some peaks \<Rightarrow>
               (let lc = ranked_cells argsort peaks leaf_cells;
                    max_splits = length (argsort peaks) div 2
                in (None, snd (split_ranked depth max_splits 0 s lc)))))"

subsection \<open>Predicates and example meshes used in the statements\<close>

text \<open>
  A mesh whose tiers were all added by \<^verbatim>\<open>new_tier\<close> has a spacing that its
  \<open>2 ^ max_tier\<close> divides; the spacing is not zero, or construction had failed. The
  spacing is at most \<open>2 ^ 53\<close> in size: up to there every whole number is a double, so
  that the division of \<^verbatim>\<open>new_tier\<close> is exact.
\<close>

definition tiers_exact :: "MultiGrid \<Rightarrow> bool" where
  "tiers_exact s =
     (spacing s \<noteq> 0 \<and> 2 ^ max_tier s dvd spacing s \<and> \<bar>spacing s\<bar> \<le> 2 ^ 53)"

definition grid_empty :: "Grid \<Rightarrow> bool" where
  "grid_empty g = (\<forall>row \<in> set (g_array g). \<forall>e \<in> set row. e = None)"


text \<open>The mesh of the scenario: image 4 x 4, spacing 2, window size 5.\<close>

definition scenario_mesh :: MultiGrid where
  "scenario_mesh =
     \<lparr>img_dim = (4, 4), spacing = 2,
      windows = [\<lparr>cw_x = 0, cw_y = 0, cw_WS = 5\<rparr>, \<lparr>cw_x = 2, cw_y = 0, cw_WS = 5\<rparr>,
                 \<lparr>cw_x = 0, cw_y = 2, cw_WS = 5\<rparr>, \<lparr>cw_x = 2, cw_y = 2, cw_WS = 5\<rparr>],
      grids = [\<lparr>g_img_dim = (4, 4), g_spacing = 2, x_vec = [0, 2], y_vec = [0, 2],
                g_ny = 2, g_nx = 2, g_array = [[Some 0, Some 1], [Some 2, Some 3]]\<rparr>],
      cells = [0], max_tier = 0, cells_in_top_tier = 1,
      store = [\<lparr>id_bl = 0, id_br = 1, id_tl = 2, id_tr = 3, tier = 0,
                children = None, parent = None, north = None, east = None,
                south = None, west = None, ix = 0, iy = 0\<rparr>]\<rparr>"


text \<open>The same mesh with a different window size on each corner.\<close>

definition mixed_mesh :: MultiGrid where
  "mixed_mesh = scenario_mesh\<lparr>windows :=
      [\<lparr>cw_x = 0, cw_y = 0, cw_WS = 5\<rparr>, \<lparr>cw_x = 2, cw_y = 0, cw_WS = 7\<rparr>,
       \<lparr>cw_x = 0, cw_y = 2, cw_WS = 9\<rparr>, \<lparr>cw_x = 2, cw_y = 2, cw_WS = 11\<rparr>]\<rparr>"


text \<open>
  What \<^verbatim>\<open>np.argsort\<close> promises of its result: the indices of the list, each once,
  in an order that sorts the values ascending.
\<close>

definition is_argsort :: "nat list \<Rightarrow> ('v :: linorder) list \<Rightarrow> bool" where
  "is_argsort I pv = (mset I = mset [0 ..< length pv] \<and> sorted (map (\<lambda>i. pv ! i) I))"


text \<open>
  Trying to split every cell of a list in turn, passing over the splits that raise:
  the number of splits that returned, and the mesh at the end.
\<close>

fun run_splits :: "nat \<Rightarrow> MultiGrid \<Rightarrow> addr list \<Rightarrow> nat \<times> MultiGrid" where
  "run_splits depth s [] = (0, s)"
| "run_splits depth s (cell # rest) =
     (case split depth s cell of
        (None, s') \<Rightarrow> (case run_splits depth s' rest of (k, s'') \<Rightarrow> (Suc k, s''))
      | (Some e, s') \<Rightarrow> run_splits depth s' rest)"


text \<open>An argsort that keeps equal values in their order, for the examples.\<close>

definition stable_argsort :: "int list \<Rightarrow> nat list" where
  "stable_argsort pv = map snd (sort_key fst (zip pv [0 ..< length pv]))"


text \<open>
  Further example meshes: 2 x 2 cells of spacing 3, which cannot be halved; one cell of
  spacing 4, which can be halved twice; 2 x 2 cells of spacing 4 with an objective
  function that grows along the rows and columns.
\<close>

definition odd_mesh :: MultiGrid where
  "odd_mesh = projr (construct (7, 7) 3 5)"

definition refinable_mesh :: MultiGrid where
  "refinable_mesh = projr (construct (5, 5) 4 5)"

definition four_mesh :: MultiGrid where
  "four_mesh = projr (construct (9, 9) 4 5)"

definition ramp_field :: "int list list" where
  "ramp_field = map (\<lambda>r. map (\<lambda>c. int (r * 9 + c)) [0 ..< 9]) [0 ..< 9]"


subsection \<open>The store after a split, for the proofs\<close>

fun opp :: "dir \<Rightarrow> dir" where
  "opp North = South" | "opp South = North" | "opp East = West" | "opp West = East"

fun flipq :: "dir \<Rightarrow> quad \<Rightarrow> quad" where
  "flipq North BL = TL" | "flipq North TL = BL" | "flipq North BR = TR" | "flipq North TR = BR"
| "flipq South BL = TL" | "flipq South TL = BL" | "flipq South BR = TR" | "flipq South TR = BR"
| "flipq East BL = BR" | "flipq East BR = BL" | "flipq East TL = TR" | "flipq East TR = TL"
| "flipq West BL = BR" | "flipq West BR = BL" | "flipq West TL = TR" | "flipq West TR = TL"

fun side1 :: "dir \<Rightarrow> quad" where
  "side1 North = TL" | "side1 East = BR" | "side1 South = BL" | "side1 West = BL"

fun side2 :: "dir \<Rightarrow> quad" where
  "side2 North = TR" | "side2 East = TR" | "side2 South = BR" | "side2 West = TL"

definition on_side :: "dir \<Rightarrow> quad \<Rightarrow> bool" where
  "on_side d q = (q = side1 d \<or> q = side2 d)"

definition new_kids :: "nat \<Rightarrow> quad \<Rightarrow> addr" where
  "new_kids n = mk_children n (n + 1) (n + 2) (n + 3)"

definition child_cell :: "addr \<Rightarrow> GridCell \<Rightarrow> nat \<times> nat \<times> nat \<times> nat \<times> nat \<Rightarrow> quad \<Rightarrow> GridCell" where
  "child_cell a c ids q =
     (case ids of (lm, cb, cm, ct, rm) \<Rightarrow>
        \<lparr>id_bl = (case q of BL \<Rightarrow> id_bl c | BR \<Rightarrow> cb | TL \<Rightarrow> lm | TR \<Rightarrow> cm),
         id_br = (case q of BL \<Rightarrow> cb | BR \<Rightarrow> id_br c | TL \<Rightarrow> cm | TR \<Rightarrow> rm),
         id_tl = (case q of BL \<Rightarrow> lm | BR \<Rightarrow> cm | TL \<Rightarrow> id_tl c | TR \<Rightarrow> ct),
         id_tr = (case q of BL \<Rightarrow> cm | BR \<Rightarrow> rm | TL \<Rightarrow> ct | TR \<Rightarrow> id_tr c),
         tier = tier c + 1, children = None, parent = Some a,
         north = None, east = None, south = None, west = None,
         ix = (case q of BL \<Rightarrow> ix c * 2 | BR \<Rightarrow> ix c * 2 + 1 | TL \<Rightarrow> ix c * 2 | TR \<Rightarrow> ix c * 2 + 1),
         iy = (case q of BL \<Rightarrow> iy c * 2 | BR \<Rightarrow> iy c * 2 | TL \<Rightarrow> iy c * 2 + 1 | TR \<Rightarrow> iy c * 2 + 1)\<rparr>)"

definition unwired :: "GridCell list \<Rightarrow> addr \<Rightarrow> nat \<times> nat \<times> nat \<times> nat \<times> nat \<Rightarrow> GridCell list" where
  "unwired st a ids =
     st[a := (st ! a)\<lparr>children := Some (new_kids (length st))\<rparr>] @
     map (child_cell a (st ! a) ids) [BL, BR, TL, TR]"

definition wired :: "GridCell list \<Rightarrow> addr \<Rightarrow> nat \<times> nat \<times> nat \<times> nat \<times> nat \<Rightarrow> GridCell list" where
  "wired st a ids =
     wire_children (length st) (length st + 1) (length st + 2) (length st + 3) (unwired st a ids)"

definition rewired :: "GridCell list \<Rightarrow> addr \<Rightarrow> nat \<times> nat \<times> nat \<times> nat \<times> nat \<Rightarrow> GridCell list" where
  "rewired st a ids =
     snd (update_child_neighbours
            (wire_children (length st) (length st + 1) (length st + 2) (length st + 3)
               (unwired st a ids)) a)"

definition ids_valid :: "MultiGrid \<Rightarrow> addr \<Rightarrow> nat \<times> nat \<times> nat \<times> nat \<times> nat \<Rightarrow> bool" where
  "ids_valid s a ids =
     (case ids of (lm, cb, cm, ct, rm) \<Rightarrow>
        (\<forall>i \<in> {lm, cb, cm, ct, rm, id_bl (store s ! a), id_br (store s ! a),
                 id_tl (store s ! a), id_tr (store s ! a)}. i < length (windows s)))"

definition nbc :: "GridCell list \<Rightarrow> addr \<Rightarrow> dir \<Rightarrow> (quad \<Rightarrow> addr) option" where
  "nbc st a d = neighbour_children st (nb d (st ! a))"

definition new_nb :: "GridCell list \<Rightarrow> addr \<Rightarrow> dir \<Rightarrow> quad \<Rightarrow> addr option" where
  "new_nb st a d q =
     (if on_side d q then map_option (\<lambda>k. k (flipq d q)) (nbc st a d)
      else Some (new_kids (length st) (flipq d q)))"

definition rewired_nb :: "GridCell list \<Rightarrow> addr \<Rightarrow> dir \<Rightarrow> addr \<Rightarrow> addr option" where
  "rewired_nb st a d x =
     (if x = length st then new_nb st a d BL
      else if x = length st + 1 then new_nb st a d BR
      else if x = length st + 2 then new_nb st a d TL
      else if x = length st + 3 then new_nb st a d TR
      else (case nbc st a (opp d) of
              None \<Rightarrow> nb d (st ! x)
            | Some kD \<Rightarrow>
                if x = kD (side1 d) then Some (new_kids (length st) (flipq d (side1 d)))
                else if x = kD (side2 d) then Some (new_kids (length st) (flipq d (side2 d)))
                else nb d (st ! x)))"

definition core :: "GridCell \<Rightarrow> (nat \<times> nat \<times> nat \<times> nat) \<times> nat \<times> (quad \<Rightarrow> addr) option \<times> addr option \<times> nat \<times> nat" where
  "core c = ((id_bl c, id_br c, id_tl c, id_tr c), tier c, children c, parent c, ix c, iy c)"

text \<open>
  The condition under which a cell can be given children: it is in the store, has none
  yet, and its neighbours and their children are other cells of the store.
\<close>

definition split_ready :: "GridCell list \<Rightarrow> addr \<Rightarrow> bool" where
  "split_ready st a =
     (a < length st \<and> children (st ! a) = None \<and>
      (\<forall>d D. nb d (st ! a) = Some D \<longrightarrow>
         D < length st \<and> D \<noteq> a \<and>
         (\<forall>kD. children (st ! D) = Some kD \<longrightarrow>
            (\<forall>r. kD r < length st \<and> kD r \<noteq> a) \<and> (\<forall>r r'. kD r = kD r' \<longrightarrow> r = r'))))"

subsection \<open>Invariants of the store\<close>

text \<open>
  Well-formed references: a parent is one tier up; a cell of a tier above 0 has a
  parent; a neighbour is another cell of the same tier; the four children of a cell are
  four different cells that name it as their parent.
\<close>

definition wf_store :: "GridCell list \<Rightarrow> bool" where
  "wf_store st =
     (\<forall>x < length st.
        (\<forall>p. parent (st ! x) = Some p \<longrightarrow> p < length st \<and> tier (st ! x) = tier (st ! p) + 1) \<and>
        (0 < tier (st ! x) \<longrightarrow> parent (st ! x) \<noteq> None) \<and>
        (\<forall>d y. nb d (st ! x) = Some y \<longrightarrow>
           y < length st \<and> y \<noteq> x \<and> tier (st ! y) = tier (st ! x)) \<and>
        (\<forall>k q. children (st ! x) = Some k \<longrightarrow>
           k q < length st \<and> parent (st ! k q) = Some x \<and> (\<forall>q'. k q = k q' \<longrightarrow> q = q')))"

text \<open>
  Neighbour symmetry, and what keeps it through a split: a child has a neighbour across
  an edge of its parent only when the parent has a neighbour there that has children.
\<close>

definition symmetric :: "GridCell list \<Rightarrow> bool" where
  "symmetric st =
     (\<forall>x < length st. \<forall>d y. nb d (st ! x) = Some y \<longrightarrow> nb (opp d) (st ! y) = Some x)"

definition outward_ok :: "GridCell list \<Rightarrow> bool" where
  "outward_ok st =
     (\<forall>x < length st. \<forall>k d q. children (st ! x) = Some k \<longrightarrow> on_side d q \<longrightarrow>
        nb d (st ! k q) \<noteq> None \<longrightarrow>
        (\<exists>S. nb d (st ! x) = Some S \<and> children (st ! S) \<noteq> None))"

text \<open>
  What a call of \<open>split\<close> on cell \<open>a\<close> leaves alone: the store only grows, no cell
  changes its tier, and a cell of the tier of \<open>a\<close> or deeper keeps its children (or
  its lack of them), \<open>a\<close> itself apart. The calls made for the neighbours of the
  parent leave \<open>a\<close> alone as well.
\<close>

definition split_frame :: "GridCell list \<Rightarrow> addr \<Rightarrow> GridCell list \<Rightarrow> bool" where
  "split_frame st a st' =
     (length st \<le> length st' \<and>
      (\<forall>x < length st. tier (st' ! x) = tier (st ! x) \<and>
         (tier (st ! a) \<le> tier (st ! x) \<longrightarrow> x \<noteq> a \<longrightarrow> children (st' ! x) = children (st ! x))))"

definition cascade_frame :: "GridCell list \<Rightarrow> addr \<Rightarrow> GridCell list \<Rightarrow> bool" where
  "cascade_frame st a st' =
     (length st \<le> length st' \<and>
      (\<forall>x < length st. tier (st' ! x) = tier (st ! x) \<and>
         (tier (st ! a) \<le> tier (st ! x) \<longrightarrow> children (st' ! x) = children (st ! x))))"

text \<open>The cell that \<^verbatim>\<open>MultiGrid.__init__\<close> makes for row \<open>rr\<close> and column \<open>cc\<close>.\<close>

definition top_cell :: "nat \<Rightarrow> nat \<Rightarrow> nat \<Rightarrow> nat \<Rightarrow> GridCell" where
  "top_cell n_rows n_cols rr cc =
     \<lparr>id_bl = rr * n_cols + cc, id_br = rr * n_cols + cc + 1,
      id_tl = rr * n_cols + cc + n_cols, id_tr = rr * n_cols + cc + n_cols + 1,
      tier = 0, children = None, parent = None,
      north = (if rr \<noteq> n_rows - 1 - 1 then Some (rr * (n_cols - 1) + cc + (n_cols - 1)) else None),
      east = (if cc \<noteq> n_cols - 1 - 1 then Some (rr * (n_cols - 1) + cc + 1) else None),
      south = (if rr \<noteq> 0 then Some (rr * (n_cols - 1) + cc - (n_cols - 1)) else None),
      west = (if cc \<noteq> 0 then Some (rr * (n_cols - 1) + cc - 1) else None),
      ix = cc, iy = rr\<rparr>"

text \<open>The store right after construction: one such cell per row and column, row by row.\<close>

definition top_store :: "nat \<Rightarrow> nat \<Rightarrow> GridCell list \<Rightarrow> bool" where
  "top_store n_rows n_cols st =
     (length st = (n_rows - 1) * (n_cols - 1) \<and>
      (\<forall>rr < n_rows - 1. \<forall>cc < n_cols - 1.
         st ! (rr * (n_cols - 1) + cc) = top_cell n_rows n_cols rr cc))"

text \<open>
  The meshes that the program can build: a constructed mesh, and from such a mesh the
  mesh left by \<^verbatim>\<open>split\<close> on any of its cell objects (also when the call raises: the
  objects keep what was written before the exception) and by \<^verbatim>\<open>new_tier\<close>.
\<close>

inductive reachable :: "MultiGrid \<Rightarrow> bool" where
  constructed: "construct dims sp ws = Inr s \<Longrightarrow> reachable s"
| after_split: "reachable s \<Longrightarrow> a < length (store s) \<Longrightarrow> reachable (snd (split depth s a))"
| after_new_tier: "reachable s \<Longrightarrow> reachable (snd (new_tier s))"

definition linked :: "MultiGrid \<Rightarrow> bool" where
  "linked s = (wf_store (store s) \<and> symmetric (store s) \<and> outward_ok (store s))"

text \<open>
  The 2 x 2 mesh of a 9 x 9 image after the split of cell 0 and then of the bottom-right
  child of cell 0, whose eastern neighbour does not exist yet: the call first splits
  cell 1.
\<close>

definition cascade_mesh :: MultiGrid where
  "cascade_mesh = snd (split 3 (snd (split 3 four_mesh 0)) 5)"

subsection \<open>Leaf cells and points, for the growth law\<close>



definition replace_leaf :: "addr \<Rightarrow> nat \<Rightarrow> addr list \<Rightarrow> addr list" where
  "replace_leaf a n L = concat (map (\<lambda>x. if x = a then [n, n + 1, n + 2, n + 3] else [x]) L)"





section \<open>Basic facts\<close>

lemma py_int_of_int [simp]: "py_int (of_int z) = z"
  by (simp add: py_int_def)

lemma py_int_quotient:
  assumes "0 < b"
  shows "py_int (of_int a / of_int b) = (if 0 \<le> a then a div b else - ((- a) div b))"
proof (cases "0 \<le> a")
  case True
  with assms have "(0::rat) \<le> of_int a / of_int b" by simp
  with True show ?thesis by (simp add: py_int_def floor_divide_of_int_eq)
next
  case False
  with assms have neg: "\<not> (0::rat) \<le> of_int a / of_int b"
    by (simp add: zero_le_divide_iff)
  have "\<lceil>(of_int a :: rat) / of_int b\<rceil> = - \<lfloor>(of_int (- a) :: rat) / of_int b\<rfloor>"
    by (simp add: ceiling_def)
  also have "\<dots> = - ((- a) div b)" by (simp only: floor_divide_of_int_eq)
  finally show ?thesis using False neg by (simp add: py_int_def)
qed

lemma py_int_half:
  "py_int ((of_int a + of_int b) / 2) = (if 0 \<le> a + b then (a + b) div 2 else - ((- (a + b)) div 2))"
  using py_int_quotient [of 2 "a + b"] by simp

lemma and_then_simps [simp]:
  "and_then (None, s) f = f s"
  "and_then (Some e, s) f = (Some e, s)"
  by (simp_all add: and_then_def)

lemma new_tier_frame:
  "new_tier s = (r, s') \<Longrightarrow>
     store s' = store s \<and> windows s' = windows s \<and> cells s' = cells s \<and>
     cells_in_top_tier s' = cells_in_top_tier s \<and> spacing s' = spacing s \<and> img_dim s' = img_dim s"
  by (auto simp: new_tier_def Let_def split: if_splits sum.splits)

lemma register_windows_frame:
  "register_windows t i j ids s = (r, s') \<Longrightarrow>
     store s' = store s \<and> windows s' = windows s \<and> cells s' = cells s \<and>
     cells_in_top_tier s' = cells_in_top_tier s \<and> spacing s' = spacing s \<and> img_dim s' = img_dim s
     \<and> max_tier s' = max_tier s"
  by (auto simp: register_windows_def split: if_splits prod.splits)

section \<open>Construction\<close>

lemma length_concat_map_map:
  "length (concat (map (\<lambda>py. map (f py) xv) yv)) = length yv * length xv"
  by (induction yv) simp_all

lemma make_cells_ok:
  "(\<And>rr cc. (rr, cc) \<in> set rcs \<Longrightarrow> rr * n_cols + cc + n_cols + 1 < length cw_list) \<Longrightarrow>
   \<exists>gcs. make_cells cw_list n_cols rcs = Inr gcs \<and> length gcs = length rcs"
proof (induction rcs)
  case Nil
  then show ?case by simp
next
  case (Cons p rcs)
  obtain rr cc where p: "p = (rr, cc)" by (cases p)
  from Cons.prems [of rr cc] p have b: "rr * n_cols + cc + n_cols + 1 < length cw_list" by simp
  from Cons.IH Cons.prems obtain gcs where
    "make_cells cw_list n_cols rcs = Inr gcs" "length gcs = length rcs" by auto
  with b p show ?case by (simp add: GridCell_init_def Let_def)
qed

lemma corner_in_range:
  assumes "rr < n_rows - 1" "cc < n_cols - 1"
  shows "rr * n_cols + cc + n_cols + 1 < n_rows * (n_cols :: nat)"
proof -
  from assms(1) have "rr + 2 \<le> n_rows" by simp
  then have "(rr + 2) * n_cols \<le> n_rows * n_cols" by (rule mult_le_mono1)
  moreover from assms(2) have "cc + 1 < n_cols" by simp
  ultimately show ?thesis by (simp add: algebra_simps)
qed

lemma construct_ok:
  assumes "sp \<noteq> 0"
  shows "\<exists>m xv yv. arange (snd dims) sp = Inr xv \<and> arange (fst dims) sp = Inr yv \<and>
           construct dims sp ws = Inr m \<and>
           length (store m) = (length yv - 1) * (length xv - 1) \<and>
           cells m = [0 ..< length (store m)] \<and>
           cells_in_top_tier m = length (store m) \<and>
           spacing m = sp \<and> max_tier m = 0 \<and> img_dim m = dims"
proof -
  from assms obtain xv yv where
    xv: "arange (snd dims) sp = Inr xv" and yv: "arange (fst dims) sp = Inr yv"
    by (auto simp: arange_def)
  from xv yv obtain g where g: "Grid_init dims sp = Inr g" by (auto simp: Grid_init_def)
  define cw_list where
    "cw_list = concat (map (\<lambda>py. map (\<lambda>px. CorrWindow_init (of_int px) (of_int py) ws) xv) yv)"
  define rcs where "rcs = List.product [0 ..< length yv - 1] [0 ..< length xv - 1]"
  have len: "length cw_list = length yv * length xv"
    unfolding cw_list_def by (rule length_concat_map_map)
  have "\<exists>gcs. make_cells cw_list (length xv) rcs = Inr gcs \<and> length gcs = length rcs"
  proof (rule make_cells_ok)
    fix rr cc assume "(rr, cc) \<in> set rcs"
    then have "rr < length yv - 1" "cc < length xv - 1" by (auto simp: rcs_def)
    then show "rr * length xv + cc + length xv + 1 < length cw_list"
      unfolding len by (rule corner_in_range)
  qed
  then obtain gcs where gcs: "make_cells cw_list (length xv) rcs = Inr gcs"
    "length gcs = length rcs" by blast
  have "length rcs = (length yv - 1) * (length xv - 1)" by (simp add: rcs_def)
  with xv yv g gcs show ?thesis
    unfolding rcs_def by (simp add: construct_def Let_def flip: cw_list_def)
qed

lemma construct_4_4_4:
  "construct (4, 4) 4 5 =
     Inr \<lparr>img_dim = (4, 4), spacing = 4, windows = [\<lparr>cw_x = 0, cw_y = 0, cw_WS = 5\<rparr>],
          grids = [\<lparr>g_img_dim = (4, 4), g_spacing = 4, x_vec = [0], y_vec = [0],
                    g_ny = 1, g_nx = 1, g_array = [[Some 0]]\<rparr>],
          cells = [], max_tier = 0, cells_in_top_tier = 0, store = []\<rparr>"
  by (simp add: construct_def arange_def Grid_init_def CorrWindow_init_def Let_def)

lemma construct_scenario: "construct (4, 4) 2 5 = Inr scenario_mesh"
  by (simp add: construct_def arange_def Grid_init_def CorrWindow_init_def Let_def
       GridCell_init_def set_neighbours_def upt_rec scenario_mesh_def)


text \<open>
  Claim C8, as stated, fails: with image 4 x 4 and spacing 4 there is one grid point per
  axis, no cell can be formed, and construction returns a mesh with no cells instead of
  raising.
\<close>

theorem construct_degenerate_counterexample:
  "\<exists>m. construct (4, 4) 4 5 = Inr m \<and> map g_nx (grids m) = [1] \<and> map g_ny (grids m) = [1] \<and>
     n_cells m = 0"
  by (simp add: construct_4_4_4 n_cells_def)


text \<open>
  Claim C8, amended. Construction does not raise on a degenerate input: for every
  spacing other than zero it succeeds, with \<open>(rows - 1) * (cols - 1)\<close> cells for
  \<open>rows\<close> by \<open>cols\<close> grid points; with fewer than two grid points in either
  direction the mesh has no cells.
\<close>

theorem construct_degenerate_no_cells:
  "sp \<noteq> 0 \<Longrightarrow>
     \<exists>m xv yv. arange (snd dims) sp = Inr xv \<and> arange (fst dims) sp = Inr yv \<and>
       construct dims sp ws = Inr m \<and>
       n_cells m = (length yv - 1) * (length xv - 1) \<and>
       (length xv < 2 \<or> length yv < 2 \<longrightarrow> n_cells m = 0)"
proof -
  assume "sp \<noteq> 0"
  from construct_ok [OF this, of dims ws] obtain m xv yv where
    m: "arange (snd dims) sp = Inr xv" "arange (fst dims) sp = Inr yv"
       "construct dims sp ws = Inr m"
       "length (store m) = (length yv - 1) * (length xv - 1)"
       "cells m = [0 ..< length (store m)]" by blast
  then have "n_cells m = (length yv - 1) * (length xv - 1)" by (simp add: n_cells_def)
  moreover have "length xv < 2 \<or> length yv < 2 \<longrightarrow> (length yv - 1) * (length xv - 1) = 0"
    by auto
  ultimately show ?thesis using m by auto
qed

theorem construct_degenerate_no_cells_witness:
  "\<exists>m. arange 7 4 = Inr [0, 4] \<and> arange 3 4 = Inr [0] \<and>
     construct (3, 7) 4 5 = Inr m \<and> n_cells m = 0"
proof -
  have a: "arange 7 4 = Inr [0, 4]" "arange 3 4 = Inr [0]" by code_simp+
  from construct_degenerate_no_cells [of 4 "(3, 7)" 5] a show ?thesis by auto
qed


section \<open>Adding a tier\<close>

lemma h_curr_exact:
  assumes "2 ^ max_tier s dvd spacing s"
  shows "h_curr s = spacing s div 2 ^ max_tier s"
proof -
  have "h_curr s = py_int (of_int (spacing s) / of_int (2 ^ max_tier s))"
    by (simp add: h_curr_def)
  also have "\<dots> = (if 0 \<le> spacing s then spacing s div 2 ^ max_tier s
                     else - ((- spacing s) div 2 ^ max_tier s))"
    by (rule py_int_quotient) simp
  also have "\<dots> = spacing s div 2 ^ max_tier s"
    using assms by (simp add: dvd_neg_div)
  finally show ?thesis .
qed

lemma h_curr_nonzero: "tiers_exact s \<Longrightarrow> h_curr s \<noteq> 0"
  by (auto simp: tiers_exact_def h_curr_exact dvd_div_eq_0_iff)

lemma Grid_init_ok:
  "sp \<noteq> 0 \<Longrightarrow> \<exists>g. Grid_init dims sp = Inr g \<and> grid_empty g \<and> g_spacing g = sp \<and> g_img_dim g = dims"
  by (auto simp: Grid_init_def arange_def grid_empty_def)

lemma new_tier_even:
  assumes "h_curr s \<noteq> 0" "even (h_curr s)"
  shows "\<exists>g. Grid_init (img_dim s) (h_curr s div 2) = Inr g \<and> grid_empty g \<and>
           g_spacing g = h_curr s div 2 \<and>
           new_tier s = (None, s\<lparr>max_tier := max_tier s + 1, grids := grids s @ [g]\<rparr>)"
proof -
  from assms have "h_curr s div 2 \<noteq> 0" by (auto elim!: evenE)
  from Grid_init_ok [OF this, of "img_dim s"] obtain g where
    g: "Grid_init (img_dim s) (h_curr s div 2) = Inr g" "grid_empty g" "g_spacing g = h_curr s div 2"
    by blast
  with assms show ?thesis by (auto simp: new_tier_def Let_def)
qed

lemma new_tier_odd: "odd (h_curr s) \<Longrightarrow> new_tier s = (Some ValueError, s)"
  by (simp add: new_tier_def)

lemma half_whole_iff_even: "((of_int h :: rat) / 2 \<in> \<int>) = even h"
proof
  assume "(of_int h :: rat) / 2 \<in> \<int>"
  then obtain k where "(of_int h :: rat) / 2 = of_int k" by (auto elim: Ints_cases)
  then have "(of_int h :: rat) = of_int (2 * k)" by simp
  then have "h = 2 * k" using of_int_eq_iff by blast
  then show "even h" by simp
next
  assume "even h"
  then obtain k where "h = 2 * k" by (auto elim: evenE)
  then show "(of_int h :: rat) / 2 \<in> \<int>" by simp
qed

lemma tiers_exact_step:
  assumes "tiers_exact s" "even (h_curr s)"
  shows "tiers_exact (s\<lparr>max_tier := max_tier s + 1, grids := gs\<rparr>)"
    and "h_curr (s\<lparr>max_tier := max_tier s + 1, grids := gs\<rparr>) = h_curr s div 2"
proof -
  from assms have d: "2 ^ max_tier s dvd spacing s" and nz: "spacing s \<noteq> 0"
    by (auto simp: tiers_exact_def)
  from assms(2) d have "even (spacing s div 2 ^ max_tier s)" by (simp add: h_curr_exact)
  then obtain k where k: "spacing s div 2 ^ max_tier s = 2 * k" by (auto elim: evenE)
  with d have sp: "spacing s = 2 ^ max_tier s * (2 * k)"
    by (metis dvd_div_mult_self mult.commute)
  then have d': "2 ^ (max_tier s + 1) dvd spacing s" by simp
  with nz assms(1) show "tiers_exact (s\<lparr>max_tier := max_tier s + 1, grids := gs\<rparr>)"
    by (simp add: tiers_exact_def)
  from d' have "h_curr (s\<lparr>max_tier := max_tier s + 1, grids := gs\<rparr>) = spacing s div 2 ^ (max_tier s + 1)"
    using h_curr_exact [of "s\<lparr>max_tier := max_tier s + 1, grids := gs\<rparr>"] by simp
  also have "\<dots> = k" using sp by simp
  also have "\<dots> = h_curr s div 2" using k d by (simp add: h_curr_exact)
  finally show "h_curr (s\<lparr>max_tier := max_tier s + 1, grids := gs\<rparr>) = h_curr s div 2" .
qed


lemma new_tier_chain_step:
  assumes "tiers_exact s" "even (h_curr s)"
  shows "\<exists>s1. new_tier s = (None, s1) \<and> h_curr s1 = h_curr s div 2 \<and> tiers_exact s1 \<and>
           max_tier s1 = max_tier s + 1 \<and> length (grids s1) = length (grids s) + 1"
proof -
  from assms have "h_curr s \<noteq> 0" by (simp add: h_curr_nonzero)
  from new_tier_even [OF this assms(2)] obtain g where
    "new_tier s = (None, s\<lparr>max_tier := max_tier s + 1, grids := grids s @ [g]\<rparr>)" by blast
  with tiers_exact_step [OF assms] show ?thesis by simp
qed


text \<open>
  Claim C7. On a mesh whose tiers were added by \<open>new_tier\<close> and whose spacing is at
  most \<open>2 ^ 53\<close> in size, \<open>h_curr\<close> is the spacing of the deepest tier. \<open>new_tier\<close> succeeds exactly when half of it is a
  whole number; it then increments \<open>max_tier\<close> and appends one empty grid of the halved
  spacing. Otherwise it raises \<open>ValueError\<close> and the mesh is as before. From spacing 6
  it succeeds once (spacing 3) and then fails; from spacing 8 it succeeds three times
  (4, 2, 1) and then fails.
\<close>

theorem new_tier_halving:
  "tiers_exact s \<longrightarrow>
     h_curr s = spacing s div 2 ^ max_tier s \<and>
     (fst (new_tier s) = None) = ((of_int (h_curr s) :: rat) / 2 \<in> \<int>) \<and>
     ((of_int (h_curr s) :: rat) / 2 \<in> \<int> \<longrightarrow>
        (\<exists>g. grid_empty g \<and> g_spacing g = h_curr s div 2 \<and>
           new_tier s = (None, s\<lparr>max_tier := max_tier s + 1, grids := grids s @ [g]\<rparr>) \<and>
           tiers_exact (s\<lparr>max_tier := max_tier s + 1, grids := grids s @ [g]\<rparr>))) \<and>
     ((of_int (h_curr s) :: rat) / 2 \<notin> \<int> \<longrightarrow> new_tier s = (Some ValueError, s)) \<and>
     (spacing s = 6 \<and> max_tier s = 0 \<longrightarrow>
        (\<exists>s1. new_tier s = (None, s1) \<and> h_curr s1 = 3 \<and>
           new_tier s1 = (Some ValueError, s1))) \<and>
     (spacing s = 8 \<and> max_tier s = 0 \<longrightarrow>
        (\<exists>s1 s2 s3. new_tier s = (None, s1) \<and> h_curr s1 = 4 \<and>
           new_tier s1 = (None, s2) \<and> h_curr s2 = 2 \<and>
           new_tier s2 = (None, s3) \<and> h_curr s3 = 1 \<and>
           new_tier s3 = (Some ValueError, s3)))"
proof (intro impI conjI)
  assume ex: "tiers_exact s"
  then show hc: "h_curr s = spacing s div 2 ^ max_tier s"
    by (simp add: tiers_exact_def h_curr_exact)
  from ex have nz: "h_curr s \<noteq> 0" by (rule h_curr_nonzero)
  show "(fst (new_tier s) = None) = ((of_int (h_curr s) :: rat) / 2 \<in> \<int>)"
  proof (cases "even (h_curr s)")
    case True
    with new_tier_even [OF nz] show ?thesis by (auto simp: half_whole_iff_even)
  next
    case False
    then show ?thesis by (simp add: new_tier_odd half_whole_iff_even)
  qed
  {
    assume "(of_int (h_curr s) :: rat) / 2 \<in> \<int>"
    then have ev: "even (h_curr s)" by (simp add: half_whole_iff_even)
    from new_tier_even [OF nz ev] obtain g where
      g: "grid_empty g" "g_spacing g = h_curr s div 2"
         "new_tier s = (None, s\<lparr>max_tier := max_tier s + 1, grids := grids s @ [g]\<rparr>)"
      by blast
    with tiers_exact_step(1) [OF ex ev]
    show "\<exists>g. grid_empty g \<and> g_spacing g = h_curr s div 2 \<and>
           new_tier s = (None, s\<lparr>max_tier := max_tier s + 1, grids := grids s @ [g]\<rparr>) \<and>
           tiers_exact (s\<lparr>max_tier := max_tier s + 1, grids := grids s @ [g]\<rparr>)"
      by blast
  }
  {
    assume "(of_int (h_curr s) :: rat) / 2 \<notin> \<int>"
    then show "new_tier s = (Some ValueError, s)"
      by (simp add: new_tier_odd half_whole_iff_even)
  }
  {
    assume a: "spacing s = 6 \<and> max_tier s = 0"
    with hc have h: "h_curr s = 6" by simp
    with new_tier_chain_step [OF ex] obtain s1 where
      s1: "new_tier s = (None, s1)" "h_curr s1 = 3" by auto
    then have "new_tier s1 = (Some ValueError, s1)" by (simp add: new_tier_odd)
    with s1 show "\<exists>s1. new_tier s = (None, s1) \<and> h_curr s1 = 3 \<and>
           new_tier s1 = (Some ValueError, s1)" by blast
  }
  {
    assume a: "spacing s = 8 \<and> max_tier s = 0"
    with hc have h: "h_curr s = 8" by simp
    with new_tier_chain_step [OF ex] obtain s1 where
      s1: "new_tier s = (None, s1)" "h_curr s1 = 4" "tiers_exact s1" by auto
    with new_tier_chain_step [of s1] obtain s2 where
      s2: "new_tier s1 = (None, s2)" "h_curr s2 = 2" "tiers_exact s2" by auto
    with new_tier_chain_step [of s2] obtain s3 where
      s3: "new_tier s2 = (None, s3)" "h_curr s3 = 1" by auto
    then have "new_tier s3 = (Some ValueError, s3)" by (simp add: new_tier_odd)
    with s1 s2 s3 show "\<exists>s1 s2 s3. new_tier s = (None, s1) \<and> h_curr s1 = 4 \<and>
           new_tier s1 = (None, s2) \<and> h_curr s2 = 2 \<and>
           new_tier s2 = (None, s3) \<and> h_curr s3 = 1 \<and>
           new_tier s3 = (Some ValueError, s3)" by blast
  }
qed

theorem new_tier_halving_witness:
  "\<exists>m. construct (20, 20) 8 5 = Inr m \<and> tiers_exact m \<and> h_curr m = 8 \<and>
     (\<exists>s1 s2 s3. new_tier m = (None, s1) \<and> h_curr s1 = 4 \<and>
        new_tier s1 = (None, s2) \<and> h_curr s2 = 2 \<and>
        new_tier s2 = (None, s3) \<and> h_curr s3 = 1 \<and>
        new_tier s3 = (Some ValueError, s3))"
proof -
  from construct_ok [of 8 "(20, 20)" 5] obtain m where
    m: "construct (20, 20) 8 5 = Inr m" "spacing m = 8" "max_tier m = 0" by auto
  then have ex: "tiers_exact m" by (simp add: tiers_exact_def)
  with new_tier_halving [of m] m show ?thesis by simp
qed


section \<open>The points made by a split\<close>

lemma create_new_corrWindows_appends:
  assumes "create_new_corrWindows s a = (ids, s')"
  shows "\<exists>new. windows s' = windows s @ new \<and> 1 \<le> length new \<and> length new \<le> 5 \<and>
           (\<forall>w \<in> set new. cw_WS w = cw_WS (bl_win s (store s ! a))) \<and>
           s' = s\<lparr>windows := windows s @ new\<rparr>"
  using assms
  by (auto simp: create_new_corrWindows_def Let_def append_window_def CorrWindow_init_def
        split: option.splits prod.splits)


lemma split_body_windows:
  assumes "split_body s a = (r, s')"
  shows "\<exists>ids s1. create_new_corrWindows s a = (ids, s1) \<and> windows s' = windows s1"
proof -
  obtain lm cb cm ct rm s1 where c: "create_new_corrWindows s a = ((lm, cb, cm, ct, rm), s1)"
    by (metis prod_cases5 surj_pair)
  have "windows s' = windows s1"
    using assms c
    apply (simp add: split_body_def Let_def split: sum.splits)
    apply (auto simp: and_then_def split: if_splits prod.splits option.splits
             dest!: new_tier_frame register_windows_frame)
    done
  with c show ?thesis by blast
qed


text \<open>
  Claim C10. A split appends between one and five points to the window list (the centre
  always), and every one of them has the window size of the bottom-left corner of the
  cell being split, whatever the window sizes of the other corners.
\<close>

theorem new_windows_take_bl_WS:
  "split_body s a = (r, s') \<Longrightarrow>
     \<exists>new. windows s' = windows s @ new \<and> 1 \<le> length new \<and> length new \<le> 5 \<and>
       (\<forall>w \<in> set new. cw_WS w = cw_WS (bl_win s (store s ! a)))"
proof -
  assume "split_body s a = (r, s')"
  from split_body_windows [OF this] obtain ids s1 where
    c: "create_new_corrWindows s a = (ids, s1)" and w: "windows s' = windows s1" by blast
  from create_new_corrWindows_appends [OF c] w show ?thesis by auto
qed

theorem new_windows_take_bl_WS_witness:
  "cw_WS (bl_win mixed_mesh (store mixed_mesh ! 0)) = 5 \<and>
   map cw_WS (windows mixed_mesh) = [5, 7, 9, 11] \<and>
   map cw_WS (windows (snd (split_body mixed_mesh 0))) = [5, 7, 9, 11, 5, 5, 5, 5, 5] \<and>
   (\<exists>new. windows (snd (split_body mixed_mesh 0)) = windows mixed_mesh @ new \<and>
       1 \<le> length new \<and> length new \<le> 5 \<and> (\<forall>w \<in> set new. cw_WS w = 5))"
proof -
  have h: "cw_WS (bl_win mixed_mesh (store mixed_mesh ! 0)) = 5" by code_simp
  have m: "map cw_WS (windows mixed_mesh) = [5, 7, 9, 11]" by code_simp
  have n: "map cw_WS (windows (snd (split_body mixed_mesh 0))) = [5, 7, 9, 11, 5, 5, 5, 5, 5]"
    by code_simp
  have "split_body mixed_mesh 0 = (fst (split_body mixed_mesh 0), snd (split_body mixed_mesh 0))"
    by simp
  from new_windows_take_bl_WS [OF this] h m n show ?thesis by simp
qed


section \<open>Uniform refinement\<close>

text \<open>
  Claim C5 at a mesh that has been refined once: image 5 x 5, spacing 4, one cell, after
  one call of \<open>split_all_cells\<close>. The four leaves can each be split, but a second call
  starts with cell 0, which has children, and ends there with \<open>ValueError\<close>; no leaf
  has been split.
\<close>

theorem split_all_cells_refined_mesh:
  "fst (split_all_cells 5 refinable_mesh) = None \<and>
   cells (snd (split_all_cells 5 refinable_mesh)) = [0, 1, 2, 3, 4] \<and>
   get_all_leaf_cells 5 (snd (split_all_cells 5 refinable_mesh)) = Some [1, 2, 3, 4] \<and>
   fst (split 5 (snd (split_all_cells 5 refinable_mesh)) 1) = None \<and>
   fst (split 5 (snd (split_all_cells 5 refinable_mesh)) 2) = None \<and>
   fst (split 5 (snd (split_all_cells 5 refinable_mesh)) 3) = None \<and>
   fst (split 5 (snd (split_all_cells 5 refinable_mesh)) 4) = None \<and>
   fst (split_all_cells 5 (snd (split_all_cells 5 refinable_mesh))) = Some ValueError \<and>
   get_all_leaf_cells 5 (snd (split_all_cells 5 (snd (split_all_cells 5 refinable_mesh))))
     = Some [1, 2, 3, 4]"
  by code_simp


section \<open>Refinement by an objective function\<close>

lemma split_ranked_prefix:
  assumes "split_ranked depth q k0 s lc = (cnt, s')" "k0 < q"
  shows "\<exists>pre post k. lc = pre @ post \<and> run_splits depth s pre = (k, s') \<and> cnt = k0 + k \<and>
           cnt \<le> q \<and> (cnt = q \<or> post = []) \<and>
           (cnt = q \<longrightarrow> pre \<noteq> [] \<and> k0 + fst (run_splits depth s (butlast pre)) = q - 1)"
  using assms
proof (induction lc arbitrary: k0 s)
  case Nil
  then show ?case by auto
next
  case (Cons c lc)
  obtain r s1 where sp: "split depth s c = (r, s1)" by (cases "split depth s c")
  show ?case
  proof (cases r)
    case None
    show ?thesis
    proof (cases "k0 + 1 = q")
      case True
      with None sp Cons.prems have "cnt = q" "s' = s1" by auto
      with None sp True show ?thesis
        by (intro exI [of _ "[c]"] exI [of _ lc] exI [of _ 1]) auto
    next
      case False
      with None sp Cons.prems have rec: "split_ranked depth q (k0 + 1) s1 lc = (cnt, s')"
        and lt: "k0 + 1 < q" by auto
      from Cons.IH [OF rec lt] obtain pre post k where
        p: "lc = pre @ post" "run_splits depth s1 pre = (k, s')" "cnt = k0 + 1 + k"
           "cnt \<le> q" "cnt = q \<or> post = []"
           "cnt = q \<longrightarrow> pre \<noteq> [] \<and> k0 + 1 + fst (run_splits depth s1 (butlast pre)) = q - 1"
        by blast
      have e1: "c # lc = (c # pre) @ post" using p(1) by simp
      have e2: "run_splits depth s (c # pre) = (Suc k, s')" using p(2) None sp by simp
      have e3: "cnt = k0 + Suc k" using p(3) by simp
      have e4: "cnt = q \<longrightarrow> c # pre \<noteq> [] \<and>
                 k0 + fst (run_splits depth s (butlast (c # pre))) = q - 1"
      proof
        assume "cnt = q"
        with p(6) have ne: "pre \<noteq> []" and
          b: "k0 + 1 + fst (run_splits depth s1 (butlast pre)) = q - 1" by auto
        from ne None sp b
        show "c # pre \<noteq> [] \<and> k0 + fst (run_splits depth s (butlast (c # pre))) = q - 1"
          by (simp add: split_beta)
      qed
      from e1 e2 e3 e4 p(4,5) show ?thesis by blast
    qed
  next
    case (Some e)
    with sp Cons.prems have rec: "split_ranked depth q k0 s1 lc = (cnt, s')" by auto
    from Cons.IH [OF rec Cons.prems(2)] obtain pre post k where
      p: "lc = pre @ post" "run_splits depth s1 pre = (k, s')" "cnt = k0 + k"
         "cnt \<le> q" "cnt = q \<or> post = []"
         "cnt = q \<longrightarrow> pre \<noteq> [] \<and> k0 + fst (run_splits depth s1 (butlast pre)) = q - 1"
      by blast
    have e1: "c # lc = (c # pre) @ post" using p(1) by simp
    have e2: "run_splits depth s (c # pre) = (k, s')" using p(2) Some sp by simp
    have e4: "cnt = q \<longrightarrow> c # pre \<noteq> [] \<and>
               k0 + fst (run_splits depth s (butlast (c # pre))) = q - 1"
    proof
      assume "cnt = q"
      with p(6) have ne: "pre \<noteq> []" and
        b: "k0 + fst (run_splits depth s1 (butlast pre)) = q - 1" by auto
      from ne Some sp b
      show "c # pre \<noteq> [] \<and> k0 + fst (run_splits depth s (butlast (c # pre))) = q - 1"
        by simp
    qed
    from e1 e2 p(3) e4 p(4,5) show ?thesis by blast
  qed
qed

lemma peak_values_nth:
  "peak_values s f cs = Some pv \<Longrightarrow> map (peak_value s f) cs = map Some pv"
  by (induction cs arbitrary: pv) (auto split: option.splits)

lemma ranked_cells_perm:
  assumes "is_argsort (argsort pv) pv" "length cs = length pv"
  shows "mset (ranked_cells argsort pv cs) = mset cs"
proof -
  have "mset (ranked_cells argsort pv cs) = image_mset (\<lambda>i. cs ! i) (mset (argsort pv))"
    by (simp add: ranked_cells_def)
  also have "\<dots> = image_mset (\<lambda>i. cs ! i) (mset [0 ..< length cs])"
    using assms by (simp add: is_argsort_def)
  also have "\<dots> = mset (map (\<lambda>i. cs ! i) [0 ..< length cs])" by simp
  also have "\<dots> = mset cs" by (simp add: map_nth)
  finally show ?thesis .
qed

lemma ranked_cells_descending:
  assumes "is_argsort (argsort pv) pv" "map pk cs = map Some pv"
  shows "\<exists>ps. map pk (ranked_cells argsort pv cs) = map Some ps \<and> sorted (rev ps)"
proof -
  from assms(2) have len: "length cs = length pv" by (metis length_map)
  from assms(1) have "set (argsort pv) = {0 ..< length pv}"
    by (metis is_argsort_def set_mset_mset set_upt)
  then have in_range: "\<And>i. i \<in> set (argsort pv) \<Longrightarrow> i < length pv" by simp
  have "\<And>i. i < length pv \<Longrightarrow> pk (cs ! i) = Some (pv ! i)"
    using assms(2) len by (metis nth_map)
  with in_range have
    "map pk (ranked_cells argsort pv cs) = map Some (map (\<lambda>i. pv ! i) (rev (argsort pv)))"
    by (simp add: ranked_cells_def)
  moreover have "sorted (rev (map (\<lambda>i. pv ! i) (rev (argsort pv))))"
    using assms(1) by (simp add: is_argsort_def rev_map)
  ultimately show ?thesis by blast
qed


text \<open>
  Claim C6, as stated, fails: the mesh of 2 x 2 cells of spacing 3 has four leaves, so
  the quota is two, but every split raises (the spacing cannot be halved) and the pass
  ends with no successful split.
\<close>

theorem adaptive_pass_counterexample:
  "get_all_leaf_cells 5 odd_mesh = Some [0, 1, 2, 3] \<and>
   peak_values odd_mesh (replicate 7 (replicate 7 (1::int))) [0, 1, 2, 3] = Some [1, 1, 1, 1] \<and>
   ranked_cells stable_argsort [1, 1, 1, 1] [0, 1, 2, 3] = [3, 2, 1, 0] \<and>
   length [0, 1, 2, 3 :: nat] div 2 = 2 \<and>
   fst (split_ranked 5 2 0 odd_mesh [3, 2, 1, 0]) = 0 \<and>
   fst (run_splits 5 odd_mesh [3, 2, 1, 0]) = 0"
  by code_simp


text \<open>
  Claim C6, amended. On a mesh with at least two leaves, the pass takes the leaves in
  the order of descending peak of the objective function over their pixel rectangle,
  tries to split them in that order, passes over a candidate whose split raises, and
  ends as soon as \<open>n div 2\<close> splits have returned or the candidates are used up. So it
  makes at most \<open>n div 2\<close> successful splits; when it makes fewer, every candidate has
  been tried.
\<close>

theorem adaptive_pass_splits:
  assumes "get_all_leaf_cells depth s = Some leaf_cells"
    and "peak_values s obj_func leaf_cells = Some peaks"
    and "is_argsort (argsort peaks) peaks"
    and "2 \<le> length leaf_cells"
  shows "\<exists>lc ps pre post cnt s'.
           lc = ranked_cells argsort peaks leaf_cells \<and> mset lc = mset leaf_cells \<and>
           map (peak_value s obj_func) lc = map Some ps \<and> sorted (rev ps) \<and>
           adaptive_split_peak_value_cells argsort depth obj_func s = (None, s') \<and>
           lc = pre @ post \<and> run_splits depth s pre = (cnt, s') \<and>
           cnt \<le> length leaf_cells div 2 \<and>
           (cnt = length leaf_cells div 2 \<or> post = []) \<and>
           (cnt = length leaf_cells div 2 \<longrightarrow>
              pre \<noteq> [] \<and> fst (run_splits depth s (butlast pre)) = length leaf_cells div 2 - 1)"
proof -
  define lc where "lc = ranked_cells argsort peaks leaf_cells"
  define q where "q = length leaf_cells div 2"
  from assms(2) have pk: "map (peak_value s obj_func) leaf_cells = map Some peaks"
    by (rule peak_values_nth)
  then have len: "length leaf_cells = length peaks" by (metis length_map)
  from assms(3) have "length (argsort peaks) = length peaks"
    by (metis is_argsort_def length_upt minus_nat.diff_0 size_mset)
  with len have q': "length (argsort peaks) div 2 = q" by (simp add: q_def)
  from assms(4) have qpos: "0 < q" by (simp add: q_def)
  obtain cnt s' where run: "split_ranked depth q 0 s lc = (cnt, s')"
    by (cases "split_ranked depth q 0 s lc")
  from split_ranked_prefix [OF run qpos] obtain pre post where
    p: "lc = pre @ post" "run_splits depth s pre = (cnt, s')" "cnt \<le> q" "cnt = q \<or> post = []"
       "cnt = q \<longrightarrow> pre \<noteq> [] \<and> fst (run_splits depth s (butlast pre)) = q - 1"
    by auto
  from ranked_cells_descending [of argsort peaks "peak_value s obj_func" leaf_cells, OF assms(3) pk] obtain ps where
    ps: "map (peak_value s obj_func) lc = map Some ps" "sorted (rev ps)"
    unfolding lc_def by blast
  have perm: "mset lc = mset leaf_cells"
    unfolding lc_def using assms(3) len by (rule ranked_cells_perm)
  have "adaptive_split_peak_value_cells argsort depth obj_func s = (None, s')"
    using assms(1,2) run q' by (simp add: adaptive_split_peak_value_cells_def Let_def lc_def)
  with p ps perm show ?thesis unfolding q_def lc_def by blast
qed


theorem adaptive_pass_splits_witness:
  "get_all_leaf_cells 5 four_mesh = Some [0, 1, 2, 3] \<and>
   peak_values four_mesh ramp_field [0, 1, 2, 3] = Some [30, 34, 66, 70] \<and>
   is_argsort (stable_argsort [30, 34, 66, 70]) [30, 34, 66, 70 :: int] \<and>
   ranked_cells stable_argsort [30, 34, 66, 70] [0, 1, 2, 3] = [3, 2, 1, 0] \<and>
   (\<exists>pre post cnt s'.
      adaptive_split_peak_value_cells stable_argsort 5 ramp_field four_mesh = (None, s') \<and>
      [3, 2, 1, 0] = pre @ post \<and> run_splits 5 four_mesh pre = (cnt, s') \<and> cnt \<le> 2 \<and>
      (cnt = 2 \<or> post = []))"
proof -
  have l: "get_all_leaf_cells 5 four_mesh = Some [0, 1, 2, 3]" by code_simp
  have p: "peak_values four_mesh ramp_field [0, 1, 2, 3] = Some [30, 34, 66, 70]" by code_simp
  have a: "is_argsort (stable_argsort [30, 34, 66, 70]) [30, 34, 66, 70 :: int]"
    by (simp add: is_argsort_def stable_argsort_def upt_rec)
  have r: "ranked_cells stable_argsort [30, 34, 66, 70] [0, 1, 2, 3] = [3, 2, 1, 0]"
    by code_simp
  have two: "2 \<le> length [0, 1, 2, 3 :: nat]" by simp
  from adaptive_pass_splits [where argsort = stable_argsort, OF l p a two]
  obtain pre post cnt s' where
    h1: "adaptive_split_peak_value_cells stable_argsort 5 ramp_field four_mesh = (None, s')" and
    h2: "ranked_cells stable_argsort [30, 34, 66, 70] [0, 1, 2, 3] = pre @ post" and
    h3: "run_splits 5 four_mesh pre = (cnt, s')" and
    h4: "cnt \<le> length [0, 1, 2, 3 :: nat] div 2" and
    h5: "cnt = length [0, 1, 2, 3 :: nat] div 2 \<or> post = []"
    by blast
  from h2 r have h2': "[3, 2, 1, 0] = pre @ post" by simp
  have len: "length [0, 1, 2, 3 :: nat] div 2 = 2" by code_simp
  from h4 have h4': "cnt \<le> 2" unfolding len .
  from h5 have h5': "cnt = 2 \<or> post = []" unfolding len .
  from l p a r h1 h2' h3 h4' h5' show ?thesis by blast
qed


section \<open>What a split does to the store\<close>

lemma create_new_corrWindows_frame:
  "create_new_corrWindows s a = (ids, s1) \<Longrightarrow>
     store s1 = store s \<and> cells s1 = cells s \<and> cells_in_top_tier s1 = cells_in_top_tier s \<and>
     max_tier s1 = max_tier s \<and> grids s1 = grids s \<and> spacing s1 = spacing s \<and>
     img_dim s1 = img_dim s"
  by (auto simp: create_new_corrWindows_def Let_def append_window_def
        split: option.splits prod.splits)

lemma attach_children_unwired:
  assumes "GridCell_init ws (id_bl (st ! a)) cb lm cm = Inr c_bl"
    "GridCell_init ws cb (id_br (st ! a)) cm rm = Inr c_br"
    "GridCell_init ws lm cm (id_tl (st ! a)) ct = Inr c_tl"
    "GridCell_init ws cm rm ct (id_tr (st ! a)) = Inr c_tr"
  shows "attach_children a c_bl c_br c_tl c_tr st = unwired st a (lm, cb, cm, ct, rm)"
  using assms
  by (auto simp: attach_children_def unwired_def child_cell_def GridCell_init_def Let_def
        new_kids_def split: if_splits)

lemma update_child_neighbours_ok:
  "children (st ! a) \<noteq> None \<Longrightarrow> fst (update_child_neighbours st a) = None"
  by (auto simp: update_child_neighbours_def Let_def)

lemma children_assign_nb [simp]: "children (assign_nb d i v st ! x) = children (st ! x)"
  by (cases d; cases "i < length st"; cases "x = i") (simp_all add: assign_nb_def list_update_beyond)

lemma length_assign_nb [simp]: "length (assign_nb d i v st) = length st"
  by (simp add: assign_nb_def)

lemma children_wire [simp]: "children (wire_children b1 b2 b3 b4 st ! x) = children (st ! x)"
  by (simp add: wire_children_def)

lemma length_unwired [simp]: "length (unwired st a ids) = length st + 4"
  by (simp add: unwired_def)

lemma children_unwired_self:
  "a < length st \<Longrightarrow> children (unwired st a ids ! a) = Some (new_kids (length st))"
  by (simp add: unwired_def nth_append)

lemma new_tier_error: "fst (new_tier s) \<noteq> Some AttributeError"
  by (auto simp: new_tier_def Let_def Grid_init_def arange_def split: sum.splits if_splits)

lemma grid_set_all_error: "fst (grid_set_all g ws) \<noteq> Some AttributeError"
  by (induction g ws rule: grid_set_all.induct) (auto simp: grid_set_def split: sum.splits if_splits)

lemma register_windows_error: "fst (register_windows t i j ids s) \<noteq> Some AttributeError"
proof (cases "t < length (grids s)")
  case True
  obtain lm cb cm ct rm where ids: "ids = (lm, cb, cm, ct, rm)" by (metis prod_cases5)
  obtain e g where g: "grid_set_all (grids s ! t)
                     [(j + 1, i, lm), (j + 0, i + 1, cb),
                      (j + 1, i + 1, cm), (j + 2, i + 1, ct),
                      (j + 1, i + 2, rm)] = (e, g)" by (metis surj_pair)
  with grid_set_all_error [of "grids s ! t" "[(j + 1, i, lm), (j + 0, i + 1, cb),
                      (j + 1, i + 1, cm), (j + 2, i + 1, ct), (j + 1, i + 2, rm)]"]
  have "e \<noteq> Some AttributeError" by simp
  with True g ids show ?thesis by (simp add: register_windows_def)
next
  case False
  then show ?thesis by (simp add: register_windows_def split: prod.splits)
qed

lemma split_body_store:
  assumes sb: "split_body s a = (r, s')" and a: "a < length (store s)"
  shows "\<exists>ids s1. create_new_corrWindows s a = (ids, s1) \<and> windows s' = windows s1 \<and>
           cells_in_top_tier s' = cells_in_top_tier s \<and> r \<noteq> Some AttributeError \<and>
           ((r = Some IndexError \<and> s' = s1) \<or>
            (r \<noteq> None \<and> ids_valid s1 a ids \<and> store s' = unwired (store s) a ids \<and> cells s' = cells s) \<or>
            (r = None \<and> ids_valid s1 a ids \<and> store s' = rewired (store s) a ids \<and>
               cells s' = cells s @ [length (store s), length (store s) + 1,
                                     length (store s) + 2, length (store s) + 3]))"
proof -
  obtain lm cb cm ct rm s1 where c: "create_new_corrWindows s a = ((lm, cb, cm, ct, rm), s1)"
    by (metis prod_cases5 surj_pair)
  note fr = create_new_corrWindows_frame [OF c]
  define st where "st = store s"
  have st1: "store s1 = st" using fr by (simp add: st_def)
  show ?thesis
  proof (cases "ids_valid s1 a (lm, cb, cm, ct, rm)")
    case False
    then have "r = Some IndexError \<and> s' = s1"
      using sb c by (auto simp: split_body_def Let_def ids_valid_def GridCell_init_def
                       split: if_splits)
    with c fr show ?thesis by auto
  next
    case True
    then obtain c_bl c_br c_tl c_tr where
      g: "GridCell_init (windows s1) (id_bl (st ! a)) cb lm cm = Inr c_bl"
         "GridCell_init (windows s1) cb (id_br (st ! a)) cm rm = Inr c_br"
         "GridCell_init (windows s1) lm cm (id_tl (st ! a)) ct = Inr c_tl"
         "GridCell_init (windows s1) cm rm ct (id_tr (st ! a)) = Inr c_tr"
      by (auto simp: ids_valid_def GridCell_init_def st1)
    note at = attach_children_unwired [OF g]
    define U where "U = unwired st a (lm, cb, cm, ct, rm)"
    define s2 where "s2 = s1\<lparr>store := U\<rparr>"
    define n where "n = length st"
    obtain r3 s3 where nt: "(if tier (st ! a) + 1 > max_tier s2 then new_tier s2 else (None, s2)) = (r3, s3)"
      by (metis surj_pair)
    have f3: "store s3 = U \<and> windows s3 = windows s1 \<and> cells s3 = cells s \<and>
              cells_in_top_tier s3 = cells_in_top_tier s"
      using nt fr by (auto simp: s2_def dest!: new_tier_frame split: if_splits)
    obtain r4 s4 where rg: "and_then (r3, s3) (register_windows (tier (st ! a) + 1) (ix (st ! a) * 2)
                (iy (st ! a) * 2) (lm, cb, cm, ct, rm)) = (r4, s4)"
      by (metis surj_pair)
    have f4: "store s4 = U \<and> windows s4 = windows s1 \<and> cells s4 = cells s \<and>
              cells_in_top_tier s4 = cells_in_top_tier s"
      using rg f3 by (cases r3) (auto dest!: register_windows_frame)
    have e3: "r3 \<noteq> Some AttributeError"
      using nt new_tier_error [of s2] by (auto split: if_splits)
    have e4: "r4 \<noteq> Some AttributeError"
      using rg e3 register_windows_error [of "tier (st ! a) + 1" "ix (st ! a) * 2"
          "iy (st ! a) * 2" "(lm, cb, cm, ct, rm)" s3]
      by (cases r3) auto
    have ok: "fst (update_child_neighbours (wire_children n (n + 1) (n + 2) (n + 3) U) a) = None"
      using a by (intro update_child_neighbours_ok) (simp add: U_def st_def children_unwired_self)
    have sb': "(r, s') = and_then (r4, s4) (\<lambda>s4. case update_child_neighbours
                        (wire_children n (n + 1) (n + 2) (n + 3) (store s4)) a of
                    (Some e, st) \<Rightarrow> (Some e, s4\<lparr>store := st\<rparr>)
                  | (None, st) \<Rightarrow>
                      (None, s4\<lparr>store := st,
                                cells := cells s4 @ [n, n + 1, n + 2, n + 3]\<rparr>))"
      using sb c g rg nt
      by (simp add: split_body_def Let_def st1 at flip: U_def s2_def n_def)
    show ?thesis
    proof (cases r4)
      case None
      with sb' ok f4 have "r = None \<and> store s' = rewired st a (lm, cb, cm, ct, rm) \<and>
          cells s' = cells s @ [n, n + 1, n + 2, n + 3] \<and> windows s' = windows s1 \<and>
          cells_in_top_tier s' = cells_in_top_tier s"
        by (auto simp: rewired_def U_def n_def split: prod.splits option.splits)
      with c True show ?thesis by (auto simp: st_def n_def)
    next
      case (Some e)
      with sb' f4 e4 have "r \<noteq> None \<and> store s' = U \<and> cells s' = cells s \<and> windows s' = windows s1
          \<and> cells_in_top_tier s' = cells_in_top_tier s \<and> r \<noteq> Some AttributeError"
        by auto
      with c True show ?thesis by (auto simp: st_def U_def)
    qed
  qed
qed

lemma core_set_nb [simp]: "core (set_nb d v c) = core c"
  by (cases d) (simp_all add: core_def)

lemma core_assign_nb [simp]: "core (assign_nb d i v st ! x) = core (st ! x)"
  by (cases "i < length st"; cases "x = i") (simp_all add: assign_nb_def list_update_beyond)

lemma nb_set_nb [simp]: "nb d' (set_nb d v c) = (if d' = d then v else nb d' c)"
  by (cases d; cases d') simp_all

lemma nb_assign_nb:
  "nb d' (assign_nb d i v st ! x) = (if x = i \<and> d' = d \<and> i < length st then v else nb d' (st ! x))"
  by (cases "i < length st"; cases "x = i") (simp_all add: assign_nb_def list_update_beyond)

lemma length_stitch [simp]: "length (stitch d back q1 r1 q2 r2 k nopt st) = length st"
  by (simp add: stitch_def split: option.splits)

lemma core_stitch [simp]: "core (stitch d back q1 r1 q2 r2 k nopt st ! x) = core (st ! x)"
  by (simp add: stitch_def split: option.splits)

lemma children_core: "core c = core c' \<Longrightarrow> children c = children c'"
  by (simp add: core_def)

lemma children_stitch [simp]: "children (stitch d back q1 r1 q2 r2 k nopt st ! x) = children (st ! x)"
  by (rule children_core) simp

lemma nb_stitch:
  "nb d' (stitch d back q1 r1 q2 r2 k nopt st ! x) =
     (case neighbour_children st nopt of
        None \<Rightarrow> nb d' (st ! x)
      | Some ney \<Rightarrow>
          if x = ney r2 \<and> d' = back \<and> ney r2 < length st then Some (k q2)
          else if x = ney r1 \<and> d' = back \<and> ney r1 < length st then Some (k q1)
          else if x = k q2 \<and> d' = d \<and> k q2 < length st then Some (ney r2)
          else if x = k q1 \<and> d' = d \<and> k q1 < length st then Some (ney r1)
          else nb d' (st ! x))"
proof (cases nopt)
  case None
  then show ?thesis by (simp add: stitch_def neighbour_children_def)
next
  case (Some i)
  show ?thesis
  proof (cases "children (st ! i)")
    case None
    with Some show ?thesis by (simp add: stitch_def neighbour_children_def)
  next
    case (Some ney)
    with \<open>nopt = Some i\<close> show ?thesis
      by (simp only: stitch_def neighbour_children_def option.case nb_assign_nb length_assign_nb)
  qed
qed

lemma length_wire [simp]: "length (wire_children b1 b2 b3 b4 st) = length st"
  by (simp add: wire_children_def)

lemma core_wire [simp]: "core (wire_children b1 b2 b3 b4 st ! x) = core (st ! x)"
  by (simp add: wire_children_def)

lemma length_rewired [simp]: "a < length st \<Longrightarrow> length (rewired st a ids) = length st + 4"
  by (simp add: rewired_def update_child_neighbours_def Let_def children_unwired_self
        children_core [OF core_wire])

lemma core_rewired: "a < length st \<Longrightarrow> core (rewired st a ids ! x) = core (unwired st a ids ! x)"
  by (simp add: rewired_def update_child_neighbours_def Let_def children_unwired_self
        children_core [OF core_wire])

lemma unwired_old:
  "x < length st \<Longrightarrow> unwired st a ids ! x =
     (if x = a then (st ! a)\<lparr>children := Some (new_kids (length st))\<rparr> else st ! x)"
  by (simp add: unwired_def nth_append)

lemma unwired_new:
  "unwired st a ids ! (length st) = child_cell a (st ! a) ids BL"
  "unwired st a ids ! (length st + 1) = child_cell a (st ! a) ids BR"
  "unwired st a ids ! (length st + 2) = child_cell a (st ! a) ids TL"
  "unwired st a ids ! (length st + 3) = child_cell a (st ! a) ids TR"
  by (simp_all add: unwired_def nth_append)

lemma nb_child_cell [simp]: "nb d (child_cell a c ids q) = None"
  by (cases d) (simp_all add: child_cell_def split: prod.splits)

lemma nb_children_update [simp]: "nb d (c\<lparr>children := k\<rparr>) = nb d c"
  by (cases d) simp_all

lemma nth_four:
  "i < 4 \<Longrightarrow> [x0, x1, x2, x3] ! i = (if i = 0 then x0 else if i = 1 then x1 else if i = 2 then x2 else x3)"
  by (cases i; simp) 

lemma nb_unwired_old: "x < length st \<Longrightarrow> nb d (unwired st a ids ! x) = nb d (st ! x)"
  by (simp add: unwired_old)

lemma nb_unwired_new:
  "length st \<le> x \<Longrightarrow> x < length st + 4 \<Longrightarrow> nb d (unwired st a ids ! x) = None"
  by (simp add: unwired_def nth_append nth_four)

lemma nb_wire:
  "nb d (wire_children b1 b2 b3 b4 st ! x) =
     (if x = b4 \<and> d = West \<and> b4 < length st then Some b3
      else if x = b4 \<and> d = South \<and> b4 < length st then Some b2
      else if x = b3 \<and> d = East \<and> b3 < length st then Some b4
      else if x = b3 \<and> d = South \<and> b3 < length st then Some b1
      else if x = b2 \<and> d = West \<and> b2 < length st then Some b1
      else if x = b2 \<and> d = North \<and> b2 < length st then Some b4
      else if x = b1 \<and> d = East \<and> b1 < length st then Some b2
      else if x = b1 \<and> d = North \<and> b1 < length st then Some b3
      else nb d (st ! x))"
  by (simp only: wire_children_def nb_assign_nb length_assign_nb)

lemma new_kids_simps [simp]:
  "new_kids n BL = n" "new_kids n BR = n + 1" "new_kids n TL = n + 2" "new_kids n TR = n + 3"
  by (simp_all add: new_kids_def mk_children_def)

lemma new_kids_ge: "n \<le> new_kids n q"
  by (cases q) simp_all

lemma split_ready_nb:
  "split_ready st a \<Longrightarrow> nb d (st ! a) = Some D \<Longrightarrow> D < length st \<and> D \<noteq> a"
  unfolding split_ready_def by blast

lemma split_ready_kids:
  assumes "split_ready st a" "nbc st a e = Some ney"
  shows "ney r < length st" "ney r \<noteq> a" "ney r = ney r' \<Longrightarrow> r = r'"
proof -
  from assms(2) obtain D where D: "nb e (st ! a) = Some D" "children (st ! D) = Some ney"
    by (auto simp: nbc_def neighbour_children_def split: option.splits)
  with assms(1) have "(\<forall>r. ney r < length st \<and> ney r \<noteq> a) \<and> (\<forall>r r'. ney r = ney r' \<longrightarrow> r = r')"
    unfolding split_ready_def by blast
  then show "ney r < length st" "ney r \<noteq> a" "ney r = ney r' \<Longrightarrow> r = r'" by blast+
qed

lemma stitch_block:
  assumes rdy: "split_ready st a"
    and len: "length S = length st + 4"
    and nbS: "nb e (S ! a) = nb e (st ! a)"
    and chS: "\<And>D. D < length st \<Longrightarrow> D \<noteq> a \<Longrightarrow> children (S ! D) = children (st ! D)"
  shows "nb d' (stitch e back q1 r1 q2 r2 (new_kids (length st)) (nb e (S ! a)) S ! x) =
     (case nbc st a e of
        None \<Rightarrow> nb d' (S ! x)
      | Some ney \<Rightarrow>
          if x = ney r2 \<and> d' = back then Some (new_kids (length st) q2)
          else if x = ney r1 \<and> d' = back then Some (new_kids (length st) q1)
          else if x = new_kids (length st) q2 \<and> d' = e then Some (ney r2)
          else if x = new_kids (length st) q1 \<and> d' = e then Some (ney r1)
          else nb d' (S ! x))"
proof -
  have eq: "neighbour_children S (nb e (S ! a)) = nbc st a e"
    using split_ready_nb [OF rdy] chS
    by (auto simp: nbc_def neighbour_children_def nbS split: option.splits)
  have k: "\<And>q. new_kids (length st) q < length S"
    using len by (case_tac q) simp_all
  show ?thesis
  proof (cases "nbc st a e")
    case None
    then show ?thesis by (simp add: nb_stitch eq)
  next
    case (Some ney)
    then have "\<And>r. ney r < length S"
      using split_ready_kids(1) [OF rdy] len by (simp add: trans_less_add1)
    with Some k show ?thesis by (simp add: nb_stitch eq)
  qed
qed

lemma wire_unwired_old:
  "x < length st \<Longrightarrow> nb d (wired st a ids ! x) = nb d (st ! x)"
  by (simp add: wired_def nb_wire nb_unwired_old)

lemma wire_unwired_new:
  "nb d (wired st a ids ! (new_kids (length st) q)) =
     (if on_side d q then None else Some (new_kids (length st) (flipq d q)))"
proof -
  have "length st \<le> new_kids (length st) q" "new_kids (length st) q < length st + 4"
    by (cases q; simp)+
  then have "nb d (unwired st a ids ! new_kids (length st) q) = None"
    by (rule nb_unwired_new)
  then show ?thesis
    by (cases q; cases d) (simp_all add: wired_def nb_wire on_side_def)
qed

lemma children_wire_unwired:
  "D < length st \<Longrightarrow> D \<noteq> a \<Longrightarrow> children (wired st a ids ! D) = children (st ! D)"
  by (simp add: wired_def unwired_old)

lemma length_wired [simp]: "length (wired st a ids) = length st + 4"
  by (simp add: wired_def)

lemma core_wired [simp]: "core (wired st a ids ! x) = core (unwired st a ids ! x)"
  by (simp add: wired_def)

lemma rewired_alt: "rewired st a ids = snd (update_child_neighbours (wired st a ids) a)"
  by (simp add: rewired_def wired_def)

lemma block_self:
  assumes rdy: "split_ready st a"
    and blk: "nb d' (S' ! a) =
     (case nbc st a e of
        None \<Rightarrow> nb d' (S ! a)
      | Some ney \<Rightarrow>
          if a = ney r2 \<and> d' = back then Some (new_kids (length st) q2)
          else if a = ney r1 \<and> d' = back then Some (new_kids (length st) q1)
          else if a = new_kids (length st) q2 \<and> d' = e then Some (ney r2)
          else if a = new_kids (length st) q1 \<and> d' = e then Some (ney r1)
          else nb d' (S ! a))"
  shows "nb d' (S' ! a) = nb d' (S ! a)"
proof (cases "nbc st a e")
  case None
  with blk show ?thesis by simp
next
  case (Some ney)
  from rdy have "a < length st" by (simp add: split_ready_def)
  then have "\<And>q. a \<noteq> new_kids (length st) q"
    using new_kids_ge [of "length st"] by (metis not_less)
  moreover have "\<And>r. a \<noteq> ney r" using split_ready_kids(2) [OF rdy Some] by metis
  ultimately show ?thesis using blk Some by simp
qed

lemma new_kids_cases:
  "length st \<le> x \<Longrightarrow> x < length st + 4 \<Longrightarrow> \<exists>q. x = new_kids (length st) q"
proof -
  assume "length st \<le> x" "x < length st + 4"
  then have "x = length st \<or> x = length st + 1 \<or> x = length st + 2 \<or> x = length st + 3"
    by arith
  then show ?thesis by (metis new_kids_simps)
qed

lemma nb_rewired:
  assumes rdy: "split_ready st a" and x: "x < length st + 4"
  shows "nb d (rewired st a ids ! x) = rewired_nb st a d x"
proof -
  define n where "n = length st"
  define K where "K = new_kids n"
  define W where "W = wired st a ids"
  define st1 where "st1 = stitch North South TL BL TR BR K (nb North (W ! a)) W"
  define st2 where "st2 = stitch East West BR BL TR TL K (nb East (st1 ! a)) st1"
  define st3 where "st3 = stitch South North BL TL BR TR K (nb South (st2 ! a)) st2"
  define st4 where "st4 = stitch West East BL BR TL TR K (nb West (st3 ! a)) st3"
  from rdy have a: "a < n" by (simp add: split_ready_def n_def)
  have lenW: "length W = n + 4" by (simp add: W_def n_def)
  have chWa: "children (W ! a) = Some K"
    using a children_core [OF core_wired, of st a ids a]
    by (simp add: W_def K_def n_def children_unwired_self)
  have chW: "\<And>D. D < n \<Longrightarrow> D \<noteq> a \<Longrightarrow> children (W ! D) = children (st ! D)"
    unfolding W_def n_def by (rule children_wire_unwired)
  have nbW: "\<And>e. nb e (W ! a) = nb e (st ! a)"
    using a unfolding W_def n_def by (rule wire_unwired_old)
  have b1: "\<And>d' x. nb d' (st1 ! x) =
     (case nbc st a North of
        None \<Rightarrow> nb d' (W ! x)
      | Some ney \<Rightarrow>
          if x = ney BR \<and> d' = South then Some (K TR)
          else if x = ney BL \<and> d' = South then Some (K TL)
          else if x = K TR \<and> d' = North then Some (ney BR)
          else if x = K TL \<and> d' = North then Some (ney BL)
          else nb d' (W ! x))"
    unfolding st1_def K_def n_def
    by (rule stitch_block [OF rdy]) (use lenW nbW chW in \<open>simp_all add: n_def del: nb.simps\<close>)
  have nb1: "\<And>e. nb e (st1 ! a) = nb e (st ! a)"
    using block_self [OF rdy b1 [unfolded K_def n_def]] nbW by simp
  have len1: "length st1 = n + 4" by (simp add: st1_def lenW)
  have ch1: "\<And>D. D < n \<Longrightarrow> D \<noteq> a \<Longrightarrow> children (st1 ! D) = children (st ! D)"
    by (simp add: st1_def chW)
  have b2: "\<And>d' x. nb d' (st2 ! x) =
     (case nbc st a East of
        None \<Rightarrow> nb d' (st1 ! x)
      | Some ney \<Rightarrow>
          if x = ney TL \<and> d' = West then Some (K TR)
          else if x = ney BL \<and> d' = West then Some (K BR)
          else if x = K TR \<and> d' = East then Some (ney TL)
          else if x = K BR \<and> d' = East then Some (ney BL)
          else nb d' (st1 ! x))"
    unfolding st2_def K_def n_def
    by (rule stitch_block [OF rdy]) (use len1 nb1 ch1 in \<open>simp_all add: n_def del: nb.simps\<close>)
  have nb2: "\<And>e. nb e (st2 ! a) = nb e (st ! a)"
    using block_self [OF rdy b2 [unfolded K_def n_def]] nb1 by simp
  have len2: "length st2 = n + 4" by (simp add: st2_def len1)
  have ch2: "\<And>D. D < n \<Longrightarrow> D \<noteq> a \<Longrightarrow> children (st2 ! D) = children (st ! D)"
    by (simp add: st2_def ch1)
  have b3: "\<And>d' x. nb d' (st3 ! x) =
     (case nbc st a South of
        None \<Rightarrow> nb d' (st2 ! x)
      | Some ney \<Rightarrow>
          if x = ney TR \<and> d' = North then Some (K BR)
          else if x = ney TL \<and> d' = North then Some (K BL)
          else if x = K BR \<and> d' = South then Some (ney TR)
          else if x = K BL \<and> d' = South then Some (ney TL)
          else nb d' (st2 ! x))"
    unfolding st3_def K_def n_def
    by (rule stitch_block [OF rdy]) (use len2 nb2 ch2 in \<open>simp_all add: n_def del: nb.simps\<close>)
  have nb3: "\<And>e. nb e (st3 ! a) = nb e (st ! a)"
    using block_self [OF rdy b3 [unfolded K_def n_def]] nb2 by simp
  have len3: "length st3 = n + 4" by (simp add: st3_def len2)
  have ch3: "\<And>D. D < n \<Longrightarrow> D \<noteq> a \<Longrightarrow> children (st3 ! D) = children (st ! D)"
    by (simp add: st3_def ch2)
  have b4: "\<And>d' x. nb d' (st4 ! x) =
     (case nbc st a West of
        None \<Rightarrow> nb d' (st3 ! x)
      | Some ney \<Rightarrow>
          if x = ney TR \<and> d' = East then Some (K TL)
          else if x = ney BR \<and> d' = East then Some (K BL)
          else if x = K TL \<and> d' = West then Some (ney TR)
          else if x = K BL \<and> d' = West then Some (ney BR)
          else nb d' (st3 ! x))"
    unfolding st4_def K_def n_def
    by (rule stitch_block [OF rdy]) (use len3 nb3 ch3 in \<open>simp_all add: n_def del: nb.simps\<close>)
  have rw: "rewired st a ids = st4"
    using chWa
    by (simp add: rewired_alt update_child_neighbours_def Let_def st4_def st3_def st2_def
          st1_def flip: W_def)
  have kids_lt: "\<And>e ney. nbc st a e = Some ney \<Longrightarrow>
      ney BL < n \<and> ney BR < n \<and> ney TL < n \<and> ney TR < n"
    using split_ready_kids(1) [OF rdy] by (simp add: n_def)
  have kids_inj: "\<And>e ney r r'. nbc st a e = Some ney \<Longrightarrow> (ney r = ney r') = (r = r')"
    using split_ready_kids(3) [OF rdy] by blast
  show ?thesis
  proof (cases "x < n")
    case True
    then have W: "\<And>d'. nb d' (W ! x) = nb d' (st ! x)"
      unfolding W_def n_def by (rule wire_unwired_old)
    from True have xK: "\<And>q. x \<noteq> K q"
      using new_kids_ge [of n] unfolding K_def by (metis not_less)
    have "nb d (st4 ! x) = rewired_nb st a d x"
      using True
      by (cases d)
         (auto simp: b4 b3 b2 b1 W xK rewired_nb_def kids_inj n_def [symmetric] K_def [symmetric]
               split: option.splits)
    then show ?thesis by (simp add: rw)
  next
    case False
    with x obtain q where q: "x = K q"
      using new_kids_cases [of st x] by (auto simp: n_def K_def)
    have W: "\<And>d' q'. nb d' (W ! K q') = (if on_side d' q' then None else Some (K (flipq d' q')))"
      unfolding W_def K_def n_def by (rule wire_unwired_new)
    note W' = W [of North, simplified] W [of East, simplified] W [of South, simplified]
      W [of West, simplified]
    have neq: "\<And>e ney r q'. nbc st a e = Some ney \<Longrightarrow> K q' \<noteq> ney r"
      using split_ready_kids(1) [OF rdy] new_kids_ge [of n] unfolding K_def n_def
      by (metis not_less)
    have Kinj: "\<And>q q'. (K q = K q') = (q = q')"
      unfolding K_def by (case_tac q; case_tac q'; simp)
    have "nb d (st4 ! K q) = new_nb st a d q"
      by (cases d; cases q)
         (auto simp: b4 b3 b2 b1 W' neq Kinj new_nb_def on_side_def
               n_def [symmetric] K_def [symmetric]
               simp del: new_kids_simps split: option.splits)
    moreover have "rewired_nb st a d (K q) = new_nb st a d q"
      unfolding K_def n_def by (cases q) (simp_all add: rewired_nb_def)
    ultimately show ?thesis by (simp add: rw q)
  qed
qed

lemma tier_core: "core c = core c' \<Longrightarrow> tier c = tier c'"
  by (simp add: core_def)

lemma parent_core: "core c = core c' \<Longrightarrow> parent c = parent c'"
  by (simp add: core_def)

lemma tier_unwired:
  "x < length st + 4 \<Longrightarrow>
     tier (unwired st a ids ! x) = (if x < length st then tier (st ! x) else tier (st ! a) + 1)"
  by (cases "a < length st")
     (auto simp: unwired_def nth_append nth_four nth_list_update list_update_beyond child_cell_def
           split: prod.splits)

lemma parent_unwired:
  "x < length st + 4 \<Longrightarrow>
     parent (unwired st a ids ! x) = (if x < length st then parent (st ! x) else Some a)"
  by (cases "a < length st")
     (auto simp: unwired_def nth_append nth_four nth_list_update list_update_beyond child_cell_def
           split: prod.splits)

lemma children_unwired:
  "a < length st \<Longrightarrow> x < length st + 4 \<Longrightarrow>
     children (unwired st a ids ! x) =
       (if x = a then Some (new_kids (length st))
        else if x < length st then children (st ! x) else None)"
  by (cases "a < length st")
     (auto simp: unwired_def nth_append nth_four nth_list_update list_update_beyond child_cell_def
           split: prod.splits)

lemma tier_rewired:
  "a < length st \<Longrightarrow> x < length st + 4 \<Longrightarrow>
     tier (rewired st a ids ! x) = (if x < length st then tier (st ! x) else tier (st ! a) + 1)"
  using tier_core [OF core_rewired] tier_unwired by metis

lemma parent_rewired:
  "a < length st \<Longrightarrow> x < length st + 4 \<Longrightarrow>
     parent (rewired st a ids ! x) = (if x < length st then parent (st ! x) else Some a)"
  using parent_core [OF core_rewired] parent_unwired by metis

lemma children_rewired:
  "a < length st \<Longrightarrow> x < length st + 4 \<Longrightarrow>
     children (rewired st a ids ! x) =
       (if x = a then Some (new_kids (length st))
        else if x < length st then children (st ! x) else None)"
  using children_core [OF core_rewired] children_unwired by metis

lemma wf_parentD:
  "wf_store st \<Longrightarrow> x < length st \<Longrightarrow> parent (st ! x) = Some p \<Longrightarrow>
     p < length st \<and> tier (st ! x) = tier (st ! p) + 1"
  unfolding wf_store_def by blast

lemma wf_nbD:
  "wf_store st \<Longrightarrow> x < length st \<Longrightarrow> nb d (st ! x) = Some y \<Longrightarrow>
     y < length st \<and> y \<noteq> x \<and> tier (st ! y) = tier (st ! x)"
  unfolding wf_store_def by blast

lemma wf_kidsD:
  "wf_store st \<Longrightarrow> x < length st \<Longrightarrow> children (st ! x) = Some k \<Longrightarrow>
     k q < length st \<and> parent (st ! k q) = Some x \<and> (k q = k q' \<longrightarrow> q = q')"
  unfolding wf_store_def by blast

lemma wf_kids_tier:
  assumes "wf_store st" "x < length st" "children (st ! x) = Some k"
  shows "tier (st ! k q) = tier (st ! x) + 1"
  using wf_kidsD [OF assms] wf_parentD [OF assms(1)] by metis

lemma wf_split_ready:
  assumes wf: "wf_store st" and a: "a < length st" and leaf: "children (st ! a) = None"
  shows "split_ready st a"
proof -
  have "\<forall>d D. nb d (st ! a) = Some D \<longrightarrow>
         D < length st \<and> D \<noteq> a \<and>
         (\<forall>kD. children (st ! D) = Some kD \<longrightarrow>
            (\<forall>r. kD r < length st \<and> kD r \<noteq> a) \<and> (\<forall>r r'. kD r = kD r' \<longrightarrow> r = r'))"
  proof (intro allI impI)
    fix d D assume D: "nb d (st ! a) = Some D"
    from wf_nbD [OF wf a D] have DD: "D < length st" and Da: "D \<noteq> a"
      and t: "tier (st ! D) = tier (st ! a)" by simp_all
    have "\<forall>kD. children (st ! D) = Some kD \<longrightarrow>
            (\<forall>r. kD r < length st \<and> kD r \<noteq> a) \<and> (\<forall>r r'. kD r = kD r' \<longrightarrow> r = r')"
    proof (intro allI impI conjI)
      fix kD r assume k: "children (st ! D) = Some kD"
      from wf_kidsD [OF wf DD k, of r] show "kD r < length st" by simp
    next
      fix kD r assume k: "children (st ! D) = Some kD"
      from wf_kids_tier [OF wf DD k, of r] t show "kD r \<noteq> a" by auto
    next
      fix kD r r' assume k: "children (st ! D) = Some kD" and "kD r = kD r'"
      with wf_kidsD [OF wf DD k] show "r = r'" by blast
    qed
    with DD Da show "D < length st \<and> D \<noteq> a \<and>
         (\<forall>kD. children (st ! D) = Some kD \<longrightarrow>
            (\<forall>r. kD r < length st \<and> kD r \<noteq> a) \<and> (\<forall>r r'. kD r = kD r' \<longrightarrow> r = r'))"
      by blast
  qed
  with a leaf show ?thesis by (simp add: split_ready_def)
qed

lemma new_kids_lt: "new_kids n q < n + 4"
  by (cases q) simp_all

lemma new_kids_inj: "(new_kids n q = new_kids n q') = (q = q')"
  by (cases q; cases q') simp_all

lemma wf_extend:
  assumes wf: "wf_store st" and a: "a < length st"
    and len: "length S = length st + 4"
    and tierS: "\<And>x. x < length st + 4 \<Longrightarrow>
        tier (S ! x) = (if x < length st then tier (st ! x) else tier (st ! a) + 1)"
    and parS: "\<And>x. x < length st + 4 \<Longrightarrow>
        parent (S ! x) = (if x < length st then parent (st ! x) else Some a)"
    and chS: "\<And>x. x < length st + 4 \<Longrightarrow>
        children (S ! x) = (if x = a then Some (new_kids (length st))
                            else if x < length st then children (st ! x) else None)"
    and nbS: "\<And>x d y. x < length st + 4 \<Longrightarrow> nb d (S ! x) = Some y \<Longrightarrow>
        y < length st + 4 \<and> y \<noteq> x \<and> tier (S ! y) = tier (S ! x)"
  shows "wf_store S"
  unfolding wf_store_def len
proof (intro allI impI)
  fix x assume x: "x < length st + 4"
  have c1: "\<forall>p. parent (S ! x) = Some p \<longrightarrow> p < length st + 4 \<and> tier (S ! x) = tier (S ! p) + 1"
  proof (intro allI impI)
    fix p assume p: "parent (S ! x) = Some p"
    show "p < length st + 4 \<and> tier (S ! x) = tier (S ! p) + 1"
    proof (cases "x < length st")
      case True
      with p parS [OF x] have pp: "parent (st ! x) = Some p" by simp
      from wf_parentD [OF wf True pp] have "p < length st" "tier (st ! x) = tier (st ! p) + 1"
        by simp_all
      with True x show ?thesis by (simp add: tierS)
    next
      case False
      with p parS [OF x] have "p = a" by simp
      with False x a show ?thesis by (simp add: tierS)
    qed
  qed
  have c2: "0 < tier (S ! x) \<longrightarrow> parent (S ! x) \<noteq> None"
  proof
    assume t: "0 < tier (S ! x)"
    show "parent (S ! x) \<noteq> None"
    proof (cases "x < length st")
      case True
      with t x have "0 < tier (st ! x)" by (simp add: tierS)
      with wf True have "parent (st ! x) \<noteq> None" unfolding wf_store_def by blast
      with True x show ?thesis by (simp add: parS)
    next
      case False
      with x show ?thesis by (simp add: parS)
    qed
  qed
  have c3: "\<forall>d y. nb d (S ! x) = Some y \<longrightarrow>
           y < length st + 4 \<and> y \<noteq> x \<and> tier (S ! y) = tier (S ! x)"
    using nbS [OF x] by blast
  have c4: "\<forall>k q. children (S ! x) = Some k \<longrightarrow>
           k q < length st + 4 \<and> parent (S ! k q) = Some x \<and> (\<forall>q'. k q = k q' \<longrightarrow> q = q')"
  proof (intro allI impI)
    fix k q assume k: "children (S ! x) = Some k"
    show "k q < length st + 4 \<and> parent (S ! k q) = Some x \<and> (\<forall>q'. k q = k q' \<longrightarrow> q = q')"
    proof (cases "x = a")
      case True
      with k chS [OF x] have kk: "k = new_kids (length st)" by simp
      have "length st \<le> new_kids (length st) q" by (rule new_kids_ge)
      then have "parent (S ! k q) = Some x"
        using True kk new_kids_lt [of "length st" q] by (simp add: parS)
      with kk show ?thesis by (simp add: new_kids_lt new_kids_inj)
    next
      case False
      with k chS [OF x] have xl: "x < length st" and kk: "children (st ! x) = Some k"
        by (auto split: if_splits)
      from wf_kidsD [OF wf xl kk] have "k q < length st" "parent (st ! k q) = Some x"
        "\<forall>q'. k q = k q' \<longrightarrow> q = q'" by blast+
      then show ?thesis by (simp add: parS)
    qed
  qed
  show "(\<forall>p. parent (S ! x) = Some p \<longrightarrow> p < length st + 4 \<and> tier (S ! x) = tier (S ! p) + 1) \<and>
        (0 < tier (S ! x) \<longrightarrow> parent (S ! x) \<noteq> None) \<and>
        (\<forall>d y. nb d (S ! x) = Some y \<longrightarrow>
           y < length st + 4 \<and> y \<noteq> x \<and> tier (S ! y) = tier (S ! x)) \<and>
        (\<forall>k q. children (S ! x) = Some k \<longrightarrow>
           k q < length st + 4 \<and> parent (S ! k q) = Some x \<and> (\<forall>q'. k q = k q' \<longrightarrow> q = q'))"
    by (rule conjI c1 c2 c3 c4)+
qed

lemma wf_unwired:
  assumes wf: "wf_store st" and a: "a < length st"
  shows "wf_store (unwired st a ids)"
proof (rule wf_extend [OF wf a])
  fix x d y assume x: "x < length st + 4" and y: "nb d (unwired st a ids ! x) = Some y"
  from y x have xl: "x < length st" using nb_unwired_new [of st x d a ids] by (cases "x < length st") auto
  with y have "nb d (st ! x) = Some y" by (simp add: nb_unwired_old)
  from wf_nbD [OF wf xl this] xl x
  show "y < length st + 4 \<and> y \<noteq> x \<and> tier (unwired st a ids ! y) = tier (unwired st a ids ! x)"
    by (simp add: tier_unwired)
qed (simp_all add: tier_unwired parent_unwired children_unwired a)

lemma rewired_nb_new: "rewired_nb st a d (new_kids (length st) q) = new_nb st a d q"
  by (cases q) (simp_all add: rewired_nb_def)

lemma rewired_nb_sibling:
  "\<not> on_side d q \<Longrightarrow>
     rewired_nb st a d (new_kids (length st) q) = Some (new_kids (length st) (flipq d q))"
  by (simp add: rewired_nb_new new_nb_def)

lemma rewired_nb_across:
  "on_side d q \<Longrightarrow>
     rewired_nb st a d (new_kids (length st) q) = map_option (\<lambda>k. k (flipq d q)) (nbc st a d)"
  by (simp add: rewired_nb_new new_nb_def)

lemma rewired_nb_old:
  assumes "x < length st"
  shows "rewired_nb st a d x =
     (case nbc st a (opp d) of
        None \<Rightarrow> nb d (st ! x)
      | Some kD \<Rightarrow>
          if x = kD (side1 d) then Some (new_kids (length st) (flipq d (side1 d)))
          else if x = kD (side2 d) then Some (new_kids (length st) (flipq d (side2 d)))
          else nb d (st ! x))"
  using assms by (simp add: rewired_nb_def)

lemma rewired_nb_back:
  assumes rdy: "split_ready st a" and k: "nbc st a (opp d) = Some kD" and r: "on_side d r"
  shows "rewired_nb st a d (kD r) = Some (new_kids (length st) (flipq d r))"
proof -
  have lt: "kD r < length st" using split_ready_kids(1) [OF rdy k] .
  have "side1 d \<noteq> side2 d" by (cases d) simp_all
  then have "kD (side1 d) \<noteq> kD (side2 d)" using split_ready_kids(3) [OF rdy k] by blast
  with r k show ?thesis by (auto simp: rewired_nb_old [OF lt] on_side_def)
qed

lemma rewired_nb_keep:
  assumes "x < length st"
    and "\<And>kD r. nbc st a (opp d) = Some kD \<Longrightarrow> on_side d r \<Longrightarrow> x \<noteq> kD r"
  shows "rewired_nb st a d x = nb d (st ! x)"
  using assms by (auto simp: rewired_nb_old on_side_def split: option.splits)

lemma rewired_nb_cases:
  assumes rdy: "split_ready st a" and x: "x < length st + 4"
    and y: "rewired_nb st a d x = Some y"
  obtains
    (sibling) q where "x = new_kids (length st) q" "\<not> on_side d q"
      "y = new_kids (length st) (flipq d q)"
  | (across) q kD where "x = new_kids (length st) q" "on_side d q" "nbc st a d = Some kD"
      "y = kD (flipq d q)"
  | (facing) r kD where "x < length st" "on_side d r" "nbc st a (opp d) = Some kD" "x = kD r"
      "y = new_kids (length st) (flipq d r)"
  | (old) "x < length st" "nb d (st ! x) = Some y"
      "\<And>kD r. nbc st a (opp d) = Some kD \<Longrightarrow> on_side d r \<Longrightarrow> x \<noteq> kD r"
proof (cases "x < length st")
  case False
  with x obtain q where q: "x = new_kids (length st) q" using new_kids_cases [of st x] by auto
  show ?thesis
  proof (cases "on_side d q")
    case True
    with y q obtain kD where "nbc st a d = Some kD" "y = kD (flipq d q)"
      by (auto simp: rewired_nb_across)
    with q True show ?thesis by (rule across)
  next
    case False
    with y q have "y = new_kids (length st) (flipq d q)" by (simp add: rewired_nb_sibling)
    with q False show ?thesis by (rule sibling)
  qed
next
  case True
  show ?thesis
  proof (cases "\<exists>kD r. nbc st a (opp d) = Some kD \<and> on_side d r \<and> x = kD r")
    case ex: True
    then obtain kD r where k: "nbc st a (opp d) = Some kD" "on_side d r" "x = kD r" by blast
    with y rewired_nb_back [OF rdy k(1,2)] have "y = new_kids (length st) (flipq d r)" by simp
    with True k show ?thesis by (intro facing) auto
  next
    case nex: False
    then have n: "\<And>kD r. nbc st a (opp d) = Some kD \<Longrightarrow> on_side d r \<Longrightarrow> x \<noteq> kD r" by blast
    with y True have "nb d (st ! x) = Some y" by (simp add: rewired_nb_keep)
    with True n show ?thesis by (intro old) auto
  qed
qed

lemma opp_opp [simp]: "opp (opp d) = d"
  by (cases d) simp_all

lemma flipq_flipq [simp]: "flipq d (flipq d q) = q"
  by (cases d; cases q) simp_all

lemma flipq_opp [simp]: "flipq (opp d) q = flipq d q"
  by (cases d; cases q) simp_all

lemma flipq_neq [simp]: "flipq d q \<noteq> q"
  by (cases d; cases q) simp_all

lemma on_side_opp [simp]: "on_side (opp d) q = (\<not> on_side d q)"
  by (cases d; cases q) (simp_all add: on_side_def)

lemma on_side_flipq [simp]: "on_side d (flipq d q) = (\<not> on_side d q)"
  by (cases d; cases q) (simp_all add: on_side_def)

lemma nbcD:
  "nbc st a d = Some kD \<Longrightarrow> \<exists>D. nb d (st ! a) = Some D \<and> children (st ! D) = Some kD"
  by (auto simp: nbc_def neighbour_children_def split: option.splits)

lemma nbcI:
  "nb d (st ! a) = Some D \<Longrightarrow> children (st ! D) = Some kD \<Longrightarrow> nbc st a d = Some kD"
  by (simp add: nbc_def neighbour_children_def)

lemma nbc_tier:
  assumes wf: "wf_store st" and a: "a < length st" and k: "nbc st a d = Some kD"
  shows "tier (st ! kD r) = tier (st ! a) + 1"
proof -
  from nbcD [OF k] obtain D where D: "nb d (st ! a) = Some D" "children (st ! D) = Some kD"
    by blast
  from wf_nbD [OF wf a D(1)] have "D < length st" "tier (st ! D) = tier (st ! a)" by simp_all
  with wf_kids_tier [OF wf _ D(2)] show ?thesis by simp
qed

lemma wf_rewired:
  assumes wf: "wf_store st" and a: "a < length st" and leaf: "children (st ! a) = None"
  shows "wf_store (rewired st a ids)"
proof (rule wf_extend [OF wf a])
  note rdy = wf_split_ready [OF wf a leaf]
  fix x d y assume x: "x < length st + 4" and y: "nb d (rewired st a ids ! x) = Some y"
  from y have y': "rewired_nb st a d x = Some y" by (simp add: nb_rewired [OF rdy x])
  from rdy x y'
  show "y < length st + 4 \<and> y \<noteq> x \<and> tier (rewired st a ids ! y) = tier (rewired st a ids ! x)"
  proof (cases rule: rewired_nb_cases)
    case (sibling q)
    have "length st \<le> new_kids (length st) q" "length st \<le> new_kids (length st) (flipq d q)"
      by (rule new_kids_ge)+
    with sibling show ?thesis
      by (simp add: tier_rewired [OF a] new_kids_lt new_kids_inj not_less [symmetric])
  next
    case (across q kD)
    have ge: "length st \<le> new_kids (length st) q" by (rule new_kids_ge)
    have lt: "kD (flipq d q) < length st" using split_ready_kids(1) [OF rdy across(3)] .
    from ge lt have "kD (flipq d q) \<noteq> new_kids (length st) q" by simp
    with across ge lt nbc_tier [OF wf a across(3)] show ?thesis
      by (simp add: tier_rewired [OF a] new_kids_lt not_less [symmetric])
  next
    case (facing r kD)
    have ge: "length st \<le> new_kids (length st) (flipq d r)" by (rule new_kids_ge)
    with facing have "new_kids (length st) (flipq d r) \<noteq> kD r" by simp
    with facing ge nbc_tier [OF wf a facing(3)] show ?thesis
      by (simp add: tier_rewired [OF a] new_kids_lt not_less [symmetric])
  next
    case old
    from wf_nbD [OF wf old(1,2)] old(1) show ?thesis
      by (simp add: tier_rewired [OF a])
  qed
qed (simp_all add: tier_rewired parent_rewired children_rewired a)

lemma symmetricD:
  "symmetric st \<Longrightarrow> x < length st \<Longrightarrow> nb d (st ! x) = Some y \<Longrightarrow> nb (opp d) (st ! y) = Some x"
  unfolding symmetric_def by blast

lemma outward_okD:
  "outward_ok st \<Longrightarrow> x < length st \<Longrightarrow> children (st ! x) = Some k \<Longrightarrow> on_side d q \<Longrightarrow>
     nb d (st ! k q) = Some y \<Longrightarrow> \<exists>S. nb d (st ! x) = Some S \<and> children (st ! S) \<noteq> None"
  unfolding outward_ok_def by blast

text \<open>
  While a cell has no children, the children of its neighbour that face it have no
  neighbour on that side.
\<close>

lemma facing_kid_free:
  assumes wf: "wf_store st" and sym: "symmetric st" and out: "outward_ok st"
    and a: "a < length st" and leaf: "children (st ! a) = None"
    and k: "nbc st a e = Some kD" and r: "on_side (opp e) r"
  shows "nb (opp e) (st ! kD r) = None"
proof (rule ccontr)
  assume "nb (opp e) (st ! kD r) \<noteq> None"
  then obtain y where y: "nb (opp e) (st ! kD r) = Some y" by blast
  from nbcD [OF k] obtain D where D: "nb e (st ! a) = Some D" "children (st ! D) = Some kD"
    by blast
  from wf_nbD [OF wf a D(1)] have DD: "D < length st" by simp
  from outward_okD [OF out DD D(2) r y] obtain S where
    S: "nb (opp e) (st ! D) = Some S" "children (st ! S) \<noteq> None" by blast
  from symmetricD [OF sym a D(1)] S(1) have "S = a" by simp
  with S(2) leaf show False by simp
qed

lemma symmetric_unwired:
  assumes wf: "wf_store st" and sym: "symmetric st"
  shows "symmetric (unwired st a ids)"
  unfolding symmetric_def
proof (intro allI impI)
  fix x d y assume x: "x < length (unwired st a ids)" and y: "nb d (unwired st a ids ! x) = Some y"
  from y x have xl: "x < length st"
    using nb_unwired_new [of st x d a ids] by (cases "x < length st") auto
  with y have y': "nb d (st ! x) = Some y" by (simp add: nb_unwired_old)
  from wf_nbD [OF wf xl y'] have "y < length st" by simp
  with symmetricD [OF sym xl y'] show "nb (opp d) (unwired st a ids ! y) = Some x"
    by (simp add: nb_unwired_old)
qed

lemma outward_ok_unwired:
  assumes wf: "wf_store st" and out: "outward_ok st" and a: "a < length st"
  shows "outward_ok (unwired st a ids)"
  unfolding outward_ok_def
proof (intro allI impI)
  fix x k d q
  assume x: "x < length (unwired st a ids)" and k: "children (unwired st a ids ! x) = Some k"
    and q: "on_side d q" and y: "nb d (unwired st a ids ! k q) \<noteq> None"
  from x have x4: "x < length st + 4" by simp
  show "\<exists>S. nb d (unwired st a ids ! x) = Some S \<and> children (unwired st a ids ! S) \<noteq> None"
  proof (cases "x = a")
    case True
    with k a have "k = new_kids (length st)" by (simp add: children_unwired)
    with y have False
      using nb_unwired_new [of st "new_kids (length st) q" d a ids]
      by (simp add: new_kids_ge new_kids_lt)
    then show ?thesis ..
  next
    case False
    with k x4 a have xl: "x < length st" and kk: "children (st ! x) = Some k"
      by (auto simp: children_unwired split: if_splits)
    from wf_kidsD [OF wf xl kk] have kq: "k q < length st" by simp
    with y obtain z where "nb d (st ! k q) = Some z" by (auto simp: nb_unwired_old)
    from outward_okD [OF out xl kk q this] obtain S where
      S: "nb d (st ! x) = Some S" "children (st ! S) \<noteq> None" by blast
    from wf_nbD [OF wf xl S(1)] have "S < length st" by simp
    with S xl a show ?thesis by (auto simp: nb_unwired_old children_unwired)
  qed
qed

lemma symmetric_rewired:
  assumes wf: "wf_store st" and sym: "symmetric st" and out: "outward_ok st"
    and a: "a < length st" and leaf: "children (st ! a) = None"
  shows "symmetric (rewired st a ids)"
  unfolding symmetric_def
proof (intro allI impI)
  note rdy = wf_split_ready [OF wf a leaf]
  fix x d y assume "x < length (rewired st a ids)" and y: "nb d (rewired st a ids ! x) = Some y"
  then have x: "x < length st + 4" using a by simp
  from y have y': "rewired_nb st a d x = Some y" by (simp add: nb_rewired [OF rdy x])
  have "rewired_nb st a (opp d) y = Some x \<and> y < length st + 4"
    using rdy x y'
  proof (cases rule: rewired_nb_cases)
    case (sibling q)
    then show ?thesis using rewired_nb_sibling [of "opp d" "flipq d q" st a]
      by (simp add: new_kids_lt)
  next
    case (across q kD)
    have "kD (flipq d q) < length st" using split_ready_kids(1) [OF rdy across(3)] .
    moreover have "rewired_nb st a (opp d) (kD (flipq d q)) =
        Some (new_kids (length st) (flipq (opp d) (flipq d q)))"
      using across by (intro rewired_nb_back [OF rdy]) simp_all
    ultimately show ?thesis using across by simp
  next
    case (facing r kD)
    then show ?thesis using rewired_nb_across [of "opp d" "flipq d r" st a]
      by (simp add: new_kids_lt)
  next
    case old
    from wf_nbD [OF wf old(1,2)] have yl: "y < length st" by simp
    have "rewired_nb st a (opp d) y = nb (opp d) (st ! y)"
    proof (rule rewired_nb_keep [OF yl])
      fix kD r assume k: "nbc st a (opp (opp d)) = Some kD" and r: "on_side (opp d) r"
      from k have k': "nbc st a d = Some kD" by simp
      from facing_kid_free [OF wf sym out a leaf k' r] have "nb (opp d) (st ! kD r) = None" .
      with symmetricD [OF sym old(1,2)] show "y \<noteq> kD r" by auto
    qed
    with symmetricD [OF sym old(1,2)] yl show ?thesis by simp
  qed
  then show "nb (opp d) (rewired st a ids ! y) = Some x"
    by (simp add: nb_rewired [OF rdy])
qed

lemma outward_ok_rewired:
  assumes wf: "wf_store st" and sym: "symmetric st" and out: "outward_ok st"
    and a: "a < length st" and leaf: "children (st ! a) = None"
  shows "outward_ok (rewired st a ids)"
  unfolding outward_ok_def
proof (intro allI impI)
  note rdy = wf_split_ready [OF wf a leaf]
  let ?R = "rewired st a ids"
  fix x k d q
  assume "x < length ?R" and k: "children (?R ! x) = Some k"
    and q: "on_side d q" and y: "nb d (?R ! k q) \<noteq> None"
  then have x: "x < length st + 4" using a by simp
  have self: "rewired_nb st a d a = nb d (st ! a)" for d
    using split_ready_kids(2) [OF rdy] by (intro rewired_nb_keep [OF a]) metis
  show "\<exists>S. nb d (?R ! x) = Some S \<and> children (?R ! S) \<noteq> None"
  proof (cases "x = a")
    case True
    with k a have kk: "k = new_kids (length st)" by (simp add: children_rewired)
    from y kk q obtain kD where kD: "nbc st a d = Some kD"
      by (auto simp: nb_rewired [OF rdy new_kids_lt] rewired_nb_across)
    from nbcD [OF kD] obtain D where D: "nb d (st ! a) = Some D" "children (st ! D) = Some kD"
      by blast
    from split_ready_nb [OF rdy D(1)] have "D < length st" "D \<noteq> a" by simp_all
    with D True a self show ?thesis
      by (simp add: nb_rewired [OF rdy] children_rewired)
  next
    case False
    with k x a have xl: "x < length st" and kk: "children (st ! x) = Some k"
      by (auto simp: children_rewired split: if_splits)
    from wf_kidsD [OF wf xl kk] have kq: "k q < length st"
      and par: "parent (st ! k q) = Some x" by simp_all
    from kq have kq4: "k q < length st + 4" by simp
    from y obtain z where z: "rewired_nb st a d (k q) = Some z"
      by (auto simp: nb_rewired [OF rdy kq4])
    from rdy kq4 z show ?thesis
    proof (cases rule: rewired_nb_cases)
      case (sibling q')
      with kq new_kids_ge [of "length st" q'] show ?thesis by simp
    next
      case (across q' kD)
      with kq new_kids_ge [of "length st" q'] show ?thesis by simp
    next
      case (facing r kD)
      from nbcD [OF facing(3)] obtain D where
        D: "nb (opp d) (st ! a) = Some D" "children (st ! D) = Some kD" by blast
      from wf_nbD [OF wf a D(1)] have DD: "D < length st" and Da: "D \<noteq> a"
        and tD: "tier (st ! D) = tier (st ! a)" by simp_all
      from wf_kidsD [OF wf DD D(2), of r] facing(4) par have xD: "x = D" by simp
      from symmetricD [OF sym a D(1)] have bk: "nb d (st ! D) = Some a" by simp
      have "rewired_nb st a d D = nb d (st ! D)"
      proof (rule rewired_nb_keep [OF DD])
        fix kD' r' assume "nbc st a (opp d) = Some kD'"
        with nbc_tier [OF wf a this, of r'] tD show "D \<noteq> kD' r'" by auto
      qed
      with bk xD DD a show ?thesis
        by (simp add: nb_rewired [OF rdy] children_rewired)
    next
      case old
      from outward_okD [OF out xl kk q old(2)] obtain S where
        S: "nb d (st ! x) = Some S" "children (st ! S) \<noteq> None" by blast
      from wf_nbD [OF wf xl S(1)] have SS: "S < length st" by simp
      have "rewired_nb st a d x = nb d (st ! x)"
      proof (rule rewired_nb_keep [OF xl])
        fix kD r assume kD: "nbc st a (opp d) = Some kD" and r: "on_side d r"
        from facing_kid_free [OF wf sym out a leaf kD] r have "nb d (st ! kD r) = None" by simp
        with S(1) show "x \<noteq> kD r" by auto
      qed
      with S SS xl a show ?thesis
        by (auto simp: nb_rewired [OF rdy] children_rewired)
    qed
  qed
qed

lemma cascade_frame_refl: "cascade_frame st a st"
  by (simp add: cascade_frame_def)

lemma cascade_frame_trans:
  assumes c1: "cascade_frame st a st1" and c2: "cascade_frame st1 a st2" and a: "a < length st"
  shows "cascade_frame st a st2"
  unfolding cascade_frame_def
proof (intro conjI allI impI)
  from c1 c2 show "length st \<le> length st2" by (simp add: cascade_frame_def)
next
  fix x assume x: "x < length st"
  with c1 have x1: "x < length st1" and t1: "tier (st1 ! x) = tier (st ! x)"
    by (auto simp: cascade_frame_def)
  with c2 show "tier (st2 ! x) = tier (st ! x)" by (simp add: cascade_frame_def)
next
  fix x assume x: "x < length st" and t: "tier (st ! a) \<le> tier (st ! x)"
  from c1 a have a1: "tier (st1 ! a) = tier (st ! a)" by (simp add: cascade_frame_def)
  from c1 x t have x1: "x < length st1" and t1: "tier (st1 ! x) = tier (st ! x)"
    and ch1: "children (st1 ! x) = children (st ! x)" by (auto simp: cascade_frame_def)
  from c2 x1 t a1 t1 have "children (st2 ! x) = children (st1 ! x)"
    by (simp add: cascade_frame_def)
  with ch1 show "children (st2 ! x) = children (st ! x)" by simp
qed

lemma cascade_frame_split_frame: "cascade_frame st a st' \<Longrightarrow> split_frame st a st'"
  by (simp add: cascade_frame_def split_frame_def)

lemma split_frame_cascade:
  assumes f: "split_frame st n st'" and t: "tier (st ! n) < tier (st ! a)"
  shows "cascade_frame st a st'"
  unfolding cascade_frame_def
proof (intro conjI allI impI)
  from f show "length st \<le> length st'" by (simp add: split_frame_def)
next
  fix x assume "x < length st"
  with f show "tier (st' ! x) = tier (st ! x)" by (simp add: split_frame_def)
next
  fix x assume x: "x < length st" and tx: "tier (st ! a) \<le> tier (st ! x)"
  with t have "tier (st ! n) \<le> tier (st ! x)" "x \<noteq> n" by auto
  with f x show "children (st' ! x) = children (st ! x)" by (simp add: split_frame_def)
qed

lemma split_frame_after_cascade:
  assumes c: "cascade_frame st a st1" and f: "split_frame st1 a st2" and a: "a < length st"
  shows "split_frame st a st2"
  unfolding split_frame_def
proof (intro conjI allI impI)
  from c f show "length st \<le> length st2" by (simp add: cascade_frame_def split_frame_def)
next
  fix x assume x: "x < length st"
  with c have x1: "x < length st1" and t1: "tier (st1 ! x) = tier (st ! x)"
    by (auto simp: cascade_frame_def)
  with f show "tier (st2 ! x) = tier (st ! x)" by (simp add: split_frame_def)
next
  fix x assume x: "x < length st" and t: "tier (st ! a) \<le> tier (st ! x)" and xa: "x \<noteq> a"
  from c a have a1: "tier (st1 ! a) = tier (st ! a)" by (simp add: cascade_frame_def)
  from c x t have x1: "x < length st1" and t1: "tier (st1 ! x) = tier (st ! x)"
    and ch1: "children (st1 ! x) = children (st ! x)" by (auto simp: cascade_frame_def)
  from f x1 t a1 t1 xa have "children (st2 ! x) = children (st1 ! x)"
    by (simp add: split_frame_def)
  with ch1 show "children (st2 ! x) = children (st ! x)" by simp
qed

lemma split_frame_refl: "split_frame st a st"
  by (simp add: split_frame_def)

lemma split_frame_unwired:
  "a < length st \<Longrightarrow> split_frame st a (unwired st a ids)"
  by (simp add: split_frame_def tier_unwired children_unwired)

lemma split_frame_rewired:
  "a < length st \<Longrightarrow> split_frame st a (rewired st a ids)"
  by (simp add: split_frame_def tier_rewired children_rewired)

lemma split_body_frame:
  assumes sb: "split_body s a = (r, s')" and a: "a < length (store s)"
  shows "split_frame (store s) a (store s')"
proof -
  from split_body_store [OF sb a] obtain ids s1 where
    c: "create_new_corrWindows s a = (ids, s1)" and
    d: "(r = Some IndexError \<and> s' = s1) \<or>
        (r \<noteq> None \<and> ids_valid s1 a ids \<and> store s' = unwired (store s) a ids \<and> cells s' = cells s) \<or>
        (r = None \<and> ids_valid s1 a ids \<and> store s' = rewired (store s) a ids \<and>
           cells s' = cells s @ [length (store s), length (store s) + 1,
                                 length (store s) + 2, length (store s) + 3])"
    by blast
  from create_new_corrWindows_frame [OF c] have "store s1 = store s" by simp
  with d a show ?thesis
    by (auto simp: split_frame_refl split_frame_unwired split_frame_rewired)
qed

lemma make_cells_nth:
  "make_cells cw_list n_cols rcs = Inr gcs \<Longrightarrow> i < length rcs \<Longrightarrow>
     gcs ! i = \<lparr>id_bl = fst (rcs ! i) * n_cols + snd (rcs ! i),
                id_br = fst (rcs ! i) * n_cols + snd (rcs ! i) + 1,
                id_tl = fst (rcs ! i) * n_cols + snd (rcs ! i) + n_cols,
                id_tr = fst (rcs ! i) * n_cols + snd (rcs ! i) + n_cols + 1,
                tier = 0, children = None, parent = None,
                north = None, east = None, south = None, west = None,
                ix = snd (rcs ! i), iy = fst (rcs ! i)\<rparr>"
proof (induction rcs arbitrary: gcs i)
  case Nil
  then show ?case by simp
next
  case (Cons p rcs)
  obtain rr cc where p: "p = (rr, cc)" by (cases p)
  from Cons.prems(1) p obtain gc gcs' where
    g: "GridCell_init cw_list (rr * n_cols + cc) (rr * n_cols + cc + 1)
          (rr * n_cols + cc + n_cols) (rr * n_cols + cc + n_cols + 1) = Inr gc"
    and m: "make_cells cw_list n_cols rcs = Inr gcs'"
    and e: "gcs = gc\<lparr>tier := 0, ix := cc, iy := rr\<rparr> # gcs'"
    by (auto simp: Let_def split: sum.splits)
  show ?case
  proof (cases i)
    case 0
    with g e p show ?thesis by (auto simp: GridCell_init_def split: if_splits)
  next
    case (Suc j)
    with Cons.prems(2) have "j < length rcs" by simp
    from Cons.IH [OF m this] Suc e show ?thesis by simp
  qed
qed

lemma make_cells_length:
  "make_cells cw_list n_cols rcs = Inr gcs \<Longrightarrow> length gcs = length rcs"
  by (induction rcs arbitrary: gcs) (auto simp: Let_def split: sum.splits prod.splits)

lemma construct_store:
  assumes c: "construct dims sp ws = Inr m"
    and xv: "arange (snd dims) sp = Inr xv" and yv: "arange (fst dims) sp = Inr yv"
  shows "length (store m) = (length yv - 1) * (length xv - 1)"
    and "rr < length yv - 1 \<Longrightarrow> cc < length xv - 1 \<Longrightarrow>
           store m ! (rr * (length xv - 1) + cc) = top_cell (length yv) (length xv) rr cc"
    and "windows m = concat (map (\<lambda>py. map (\<lambda>px. CorrWindow_init (of_int px) (of_int py) ws) xv) yv)"
    and "cells m = [0 ..< length (store m)]" and "cells_in_top_tier m = length (store m)"
proof -
  define cw_list where
    "cw_list = concat (map (\<lambda>py. map (\<lambda>px. CorrWindow_init (of_int px) (of_int py) ws) xv) yv)"
  define rcs where "rcs = List.product [0 ..< length yv - 1] [0 ..< length xv - 1]"
  from c xv yv obtain g gcs where g: "Grid_init dims sp = Inr g"
    and mk: "make_cells cw_list (length xv) rcs = Inr gcs"
    and m: "m = \<lparr>img_dim = dims, spacing = sp, windows = cw_list,
                 grids = [g\<lparr>g_array := map (\<lambda>ii. map (\<lambda>jj. Some (jj + ii * length xv)) [0 ..< length xv])
                               [0 ..< length yv]\<rparr>],
                 cells = [0 ..< length gcs], max_tier = 0, cells_in_top_tier = length gcs,
                 store = map (\<lambda>(p, gc). set_neighbours (length yv - 1) (length xv - 1) p gc)
                           (zip rcs gcs)\<rparr>"
    unfolding construct_def cw_list_def rcs_def
    by (auto simp: Let_def split: sum.splits)
  have lg: "length gcs = length rcs" using mk by (rule make_cells_length)
  have lr: "length rcs = (length yv - 1) * (length xv - 1)" by (simp add: rcs_def)
  show "length (store m) = (length yv - 1) * (length xv - 1)" by (simp add: m lg lr)
  show "windows m = concat (map (\<lambda>py. map (\<lambda>px. CorrWindow_init (of_int px) (of_int py) ws) xv) yv)"
    by (simp add: m cw_list_def)
  show "cells m = [0 ..< length (store m)]" "cells_in_top_tier m = length (store m)"
    by (simp_all add: m lg)
  assume rr: "rr < length yv - 1" and cc: "cc < length xv - 1"
  define i where "i = rr * (length xv - 1) + cc"
  have "rr * (length xv - 1) + cc < rr * (length xv - 1) + (length xv - 1)" using cc by simp
  also have "\<dots> = (rr + 1) * (length xv - 1)" by simp
  also have "\<dots> \<le> (length yv - 1) * (length xv - 1)" using rr by (intro mult_le_mono1) simp
  finally have il: "i < length rcs" by (simp add: i_def lr)
  have dm: "i div (length xv - 1) = rr" "i mod (length xv - 1) = cc"
    using cc by (simp_all add: i_def)
  have ri: "rcs ! i = (rr, cc)"
    using il rr cc dm unfolding rcs_def by (simp add: product_nth)
  have st: "store m ! i = set_neighbours (length yv - 1) (length xv - 1) (rcs ! i) (gcs ! i)"
    using il lg by (simp add: m)
  have gi: "gcs ! i = \<lparr>id_bl = rr * length xv + cc, id_br = rr * length xv + cc + 1,
                id_tl = rr * length xv + cc + length xv,
                id_tr = rr * length xv + cc + length xv + 1,
                tier = 0, children = None, parent = None,
                north = None, east = None, south = None, west = None,
                ix = cc, iy = rr\<rparr>"
    using make_cells_nth [OF mk il] ri by simp
  have "store m ! i = top_cell (length yv) (length xv) rr cc"
    unfolding st ri gi by (simp add: set_neighbours_def top_cell_def i_def Let_def)
  then show "store m ! (rr * (length xv - 1) + cc) = top_cell (length yv) (length xv) rr cc"
    by (simp only: i_def)
qed

lemma top_index:
  assumes "x < n_rc * n_cc"
  shows "\<exists>rr cc. rr < n_rc \<and> cc < n_cc \<and> x = rr * n_cc + (cc :: nat)"
proof (intro exI conjI)
  from assms have pos: "0 < n_cc" by (cases n_cc) simp_all
  show "x mod n_cc < n_cc" using pos by simp
  show "x div n_cc < n_rc" using assms pos by (simp add: less_mult_imp_div_less)
  show "x = x div n_cc * n_cc + x mod n_cc" by simp
qed

lemma top_in_range:
  assumes "rr < n_rc" "cc < n_cc"
  shows "rr * n_cc + cc < n_rc * (n_cc :: nat)"
proof -
  have "rr * n_cc + cc < rr * n_cc + n_cc" using assms by simp
  also have "\<dots> = (rr + 1) * n_cc" by simp
  also have "\<dots> \<le> n_rc * n_cc" using assms by (intro mult_le_mono1) simp
  finally show ?thesis .
qed

lemma top_cell_nb:
  assumes rr: "rr < R - 1" and cc: "cc < C - 1" and y: "nb d (top_cell R C rr cc) = Some y"
  shows "\<exists>rr' cc'. rr' < R - 1 \<and> cc' < C - 1 \<and> y = rr' * (C - 1) + cc' \<and>
           y \<noteq> rr * (C - 1) + cc \<and>
           nb (opp d) (top_cell R C rr' cc') = Some (rr * (C - 1) + cc)"
proof (cases d)
  case North
  with y have ne: "rr \<noteq> R - 1 - 1" and yy: "y = rr * (C - 1) + cc + (C - 1)"
    by (auto simp: top_cell_def split: if_splits)
  show ?thesis
    using rr cc ne yy North
    by (intro exI [of _ "rr + 1"] exI [of _ cc]) (auto simp: top_cell_def)
next
  case East
  with y have ne: "cc \<noteq> C - 1 - 1" and yy: "y = rr * (C - 1) + cc + 1"
    by (auto simp: top_cell_def split: if_splits)
  show ?thesis
    using rr cc ne yy East
    by (intro exI [of _ rr] exI [of _ "cc + 1"]) (auto simp: top_cell_def)
next
  case South
  with y have ne: "rr \<noteq> 0" and yy: "y = rr * (C - 1) + cc - (C - 1)"
    by (auto simp: top_cell_def split: if_splits)
  from ne obtain r where r: "rr = Suc r" by (cases rr) simp_all
  show ?thesis
    using rr cc yy South r
    by (intro exI [of _ r] exI [of _ cc]) (auto simp: top_cell_def)
next
  case West
  with y have ne: "cc \<noteq> 0" and yy: "y = rr * (C - 1) + cc - 1"
    by (auto simp: top_cell_def split: if_splits)
  from ne obtain c where c: "cc = Suc c" by (cases cc) simp_all
  show ?thesis
    using rr cc yy West c
    by (intro exI [of _ rr] exI [of _ c]) (auto simp: top_cell_def)
qed

lemma top_store_cell:
  assumes "top_store R C st" "x < length st"
  obtains rr cc where "rr < R - 1" "cc < C - 1" "x = rr * (C - 1) + cc"
    "st ! x = top_cell R C rr cc"
proof -
  from assms have "x < (R - 1) * (C - 1)" by (simp add: top_store_def)
  from top_index [OF this] obtain rr cc where
    c: "rr < R - 1" "cc < C - 1" "x = rr * (C - 1) + cc" by blast
  from assms(1) have "\<forall>rr < R - 1. \<forall>cc < C - 1.
         st ! (rr * (C - 1) + cc) = top_cell R C rr cc" by (simp add: top_store_def)
  with c(1,2) have "st ! (rr * (C - 1) + cc) = top_cell R C rr cc" by blast
  with c have "st ! x = top_cell R C rr cc" by simp
  with c show ?thesis by (rule that)
qed

lemma top_store_nb:
  assumes ts: "top_store R C st" and x: "x < length st" and y: "nb d (st ! x) = Some y"
  shows "y < length st \<and> y \<noteq> x \<and> nb (opp d) (st ! y) = Some x"
proof -
  from ts x obtain rr cc where c: "rr < R - 1" "cc < C - 1" "x = rr * (C - 1) + cc"
    "st ! x = top_cell R C rr cc" by (rule top_store_cell)
  from y c(4) have yy: "nb d (top_cell R C rr cc) = Some y" by simp
  from top_cell_nb [OF c(1,2) yy] obtain rr' cc' where
    c': "rr' < R - 1" "cc' < C - 1" "y = rr' * (C - 1) + cc'" "y \<noteq> rr * (C - 1) + cc"
      "nb (opp d) (top_cell R C rr' cc') = Some (rr * (C - 1) + cc)" by blast
  from ts have "\<forall>rr < R - 1. \<forall>cc < C - 1.
         st ! (rr * (C - 1) + cc) = top_cell R C rr cc" by (simp add: top_store_def)
  with c'(1,2) have "st ! (rr' * (C - 1) + cc') = top_cell R C rr' cc'" by blast
  moreover from top_in_range [OF c'(1,2)] ts have "y < length st"
    by (simp add: c'(3) top_store_def)
  ultimately show ?thesis using c c' by simp
qed

lemma top_store_fields:
  assumes "top_store R C st" "x < length st"
  shows "tier (st ! x) = 0" "children (st ! x) = None" "parent (st ! x) = None"
proof -
  from assms obtain rr cc where "st ! x = top_cell R C rr cc" by (rule top_store_cell)
  then show "tier (st ! x) = 0" "children (st ! x) = None" "parent (st ! x) = None"
    by (simp_all add: top_cell_def)
qed

lemma wf_top_store:
  assumes ts: "top_store R C st"
  shows "wf_store st"
  unfolding wf_store_def
proof (intro allI impI)
  fix x assume x: "x < length st"
  note f = top_store_fields [OF ts x]
  have c3: "\<forall>d y. nb d (st ! x) = Some y \<longrightarrow>
           y < length st \<and> y \<noteq> x \<and> tier (st ! y) = tier (st ! x)"
  proof (intro allI impI)
    fix d y assume "nb d (st ! x) = Some y"
    from top_store_nb [OF ts x this] have "y < length st" "y \<noteq> x" by simp_all
    with top_store_fields(1) [OF ts] f(1) show
      "y < length st \<and> y \<noteq> x \<and> tier (st ! y) = tier (st ! x)" by simp
  qed
  with f show "(\<forall>p. parent (st ! x) = Some p \<longrightarrow> p < length st \<and> tier (st ! x) = tier (st ! p) + 1) \<and>
        (0 < tier (st ! x) \<longrightarrow> parent (st ! x) \<noteq> None) \<and>
        (\<forall>d y. nb d (st ! x) = Some y \<longrightarrow>
           y < length st \<and> y \<noteq> x \<and> tier (st ! y) = tier (st ! x)) \<and>
        (\<forall>k q. children (st ! x) = Some k \<longrightarrow>
           k q < length st \<and> parent (st ! k q) = Some x \<and> (\<forall>q'. k q = k q' \<longrightarrow> q = q'))"
    by simp
qed

lemma symmetric_top_store: "top_store R C st \<Longrightarrow> symmetric st"
  unfolding symmetric_def using top_store_nb by blast

lemma outward_ok_top_store: "top_store R C st \<Longrightarrow> outward_ok st"
  unfolding outward_ok_def by (simp add: top_store_fields(2))

lemma construct_top_store:
  assumes "construct dims sp ws = Inr m"
  shows "\<exists>R C. top_store R C (store m)"
proof -
  from assms obtain xv yv where
    av: "arange (snd dims) sp = Inr xv" "arange (fst dims) sp = Inr yv"
    by (auto simp: construct_def split: sum.splits)
  have "top_store (length yv) (length xv) (store m)"
    unfolding top_store_def
    using construct_store(1) [OF assms av] construct_store(2) [OF assms av] by simp
  then show ?thesis by blast
qed



lemma and_then_chain:
  assumes "fst r \<noteq> Some e0" "Q (snd r)"
    and "\<And>s. Q s \<Longrightarrow> fst (f s) \<noteq> Some e0 \<and> Q (snd (f s))"
  shows "fst (and_then r f) \<noteq> Some e0 \<and> Q (snd (and_then r f))"
  using assms by (cases r; cases "fst r") auto

lemma split_parent_neighb_inv:
  assumes wfI: "\<And>s. I s \<Longrightarrow> wf_store (store s)"
    and IH: "\<And>s n. I s \<Longrightarrow> n < length (store s) \<Longrightarrow>
               fst (sp s n) \<noteq> Some AttributeError \<and> I (snd (sp s n)) \<and>
               split_frame (store s) n (store (snd (sp s n)))"
    and I: "I s" and a: "a < length (store s)" and t: "0 < tier (store s ! a)"
  shows "fst (split_parent_neighb sp d a s) \<noteq> Some AttributeError \<and>
         I (snd (split_parent_neighb sp d a s)) \<and>
         cascade_frame (store s) a (store (snd (split_parent_neighb sp d a s)))"
proof -
  note wf = wfI [OF I]
  from wf a t obtain p where p: "parent (store s ! a) = Some p"
    unfolding wf_store_def by blast
  show ?thesis
  proof (cases "nb d (store s ! a) = None \<and> nb d (store s ! p) \<noteq> None")
    case False
    then have "split_parent_neighb sp d a s = (None, s)"
      using p by (auto simp: split_parent_neighb_def split: option.splits)
    with I show ?thesis by (simp add: cascade_frame_refl)
  next
    case True
    then obtain n where n: "nb d (store s ! p) = Some n"
      and none: "nb d (store s ! a) = None" by auto
    from wf_parentD [OF wf a p] have pl: "p < length (store s)"
      and tp: "tier (store s ! a) = tier (store s ! p) + 1" by simp_all
    from wf_nbD [OF wf pl n] have nl: "n < length (store s)"
      and tn: "tier (store s ! n) = tier (store s ! p)" by simp_all
    have eq: "split_parent_neighb sp d a s = sp s n"
      using p n none by (simp add: split_parent_neighb_def)
    from IH [OF I nl] have "fst (sp s n) \<noteq> Some AttributeError" "I (snd (sp s n))"
      "split_frame (store s) n (store (snd (sp s n)))" by simp_all
    moreover have "tier (store s ! n) < tier (store s ! a)" using tp tn by simp
    ultimately show ?thesis by (simp add: eq split_frame_cascade)
  qed
qed

lemma split_neighbs_inv:
  assumes wfI: "\<And>s. I s \<Longrightarrow> wf_store (store s)"
    and IH: "\<And>s n. I s \<Longrightarrow> n < length (store s) \<Longrightarrow>
               fst (sp s n) \<noteq> Some AttributeError \<and> I (snd (sp s n)) \<and>
               split_frame (store s) n (store (snd (sp s n)))"
    and I: "I s" and a: "a < length (store s)" and t: "0 < tier (store s ! a)"
  shows "fst (split_neighbs_if_needed sp s a) \<noteq> Some AttributeError \<and>
         I (snd (split_neighbs_if_needed sp s a)) \<and>
         cascade_frame (store s) a (store (snd (split_neighbs_if_needed sp s a)))"
proof -
  let ?Q = "\<lambda>s'. I s' \<and> cascade_frame (store s) a (store s')"
  have step: "fst (split_parent_neighb sp d a s') \<noteq> Some AttributeError \<and>
              ?Q (snd (split_parent_neighb sp d a s'))" if Q: "?Q s'" for s' d
  proof -
    from Q a have a': "a < length (store s')" and t': "0 < tier (store s' ! a)"
      using t by (auto simp: cascade_frame_def)
    from split_parent_neighb_inv [OF wfI IH _ a' t', where d = d] Q
    have "fst (split_parent_neighb sp d a s') \<noteq> Some AttributeError"
      "I (snd (split_parent_neighb sp d a s'))"
      "cascade_frame (store s') a (store (snd (split_parent_neighb sp d a s')))" by simp_all
    with Q a show ?thesis by (auto intro: cascade_frame_trans)
  qed
  have q0: "?Q s" using I by (simp add: cascade_frame_refl)
  note q1 = step [OF q0, of North]
  note q2 = and_then_chain [where Q = ?Q and f = "split_parent_neighb sp East a",
      OF conjunct1 [OF q1] conjunct2 [OF q1] step]
  note q3 = and_then_chain [where Q = ?Q and f = "split_parent_neighb sp South a",
      OF conjunct1 [OF q2] conjunct2 [OF q2] step]
  note q4 = and_then_chain [where Q = ?Q and f = "split_parent_neighb sp West a",
      OF conjunct1 [OF q3] conjunct2 [OF q3] step]
  from q4 show ?thesis unfolding split_neighbs_if_needed_def by simp
qed

lemma split_inv:
  assumes wfI: "\<And>s. I s \<Longrightarrow> wf_store (store s)"
    and body: "\<And>s a r s'. I s \<Longrightarrow> a < length (store s) \<Longrightarrow>
                 children (store s ! a) = None \<Longrightarrow> split_body s a = (r, s') \<Longrightarrow> I s'"
  shows "I s \<Longrightarrow> a < length (store s) \<Longrightarrow>
           fst (split depth s a) \<noteq> Some AttributeError \<and>
           I (snd (split depth s a)) \<and> split_frame (store s) a (store (snd (split depth s a)))"
proof (induction depth arbitrary: s a)
  case 0
  then show ?case by (simp add: split_frame_refl)
next
  case (Suc depth)
  show ?case
  proof (cases "has_children (store s ! a)")
    case True
    with Suc.prems show ?thesis by (simp add: split_frame_refl)
  next
    case False
    then have leaf: "children (store s ! a) = None" by (simp add: has_children_def split: if_splits)
    define c where "c = (if tier (store s ! a) > 0 then split_neighbs_if_needed (split depth) s a
                         else (None, s))"
    have Q: "fst c \<noteq> Some AttributeError \<and> I (snd c) \<and> cascade_frame (store s) a (store (snd c))"
    proof (cases "tier (store s ! a) > 0")
      case True
      have "fst (split_neighbs_if_needed (split depth) s a) \<noteq> Some AttributeError \<and>
         I (snd (split_neighbs_if_needed (split depth) s a)) \<and>
         cascade_frame (store s) a (store (snd (split_neighbs_if_needed (split depth) s a)))"
        by (rule split_neighbs_inv [OF wfI Suc.IH Suc.prems True])
      with True show ?thesis by (simp add: c_def)
    next
      case False
      with Suc.prems show ?thesis by (simp add: c_def cascade_frame_refl)
    qed
    have eq: "split (Suc depth) s a = and_then c (\<lambda>s1. split_body s1 a)"
      using False by (simp add: c_def)
    show ?thesis
    proof (cases "fst c")
      case (Some e)
      then have e1: "and_then c (\<lambda>s1. split_body s1 a) = c" by (cases c) simp
      from Q have "fst c \<noteq> Some AttributeError \<and> I (snd c) \<and>
          split_frame (store s) a (store (snd c))"
        by (simp add: cascade_frame_split_frame)
      then show ?thesis unfolding eq e1 .
    next
      case None
      then have e2: "and_then c (\<lambda>s1. split_body s1 a) = split_body (snd c) a" by (cases c) simp
      from Q Suc.prems(2) have a1: "a < length (store (snd c))"
        and l1: "children (store (snd c) ! a) = None"
        using leaf by (auto simp: cascade_frame_def)
      obtain r s' where sb: "split_body (snd c) a = (r, s')" by (cases "split_body (snd c) a")
      from body [OF _ a1 l1 sb] Q have "I s'" by simp
      moreover from split_body_frame [OF sb a1] Q Suc.prems(2)
      have "split_frame (store s) a (store s')" by (auto intro: split_frame_after_cascade)
      moreover from split_body_store [OF sb a1] have "r \<noteq> Some AttributeError" by blast
      ultimately show ?thesis unfolding eq e2 sb snd_conv fst_conv by blast
    qed
  qed
qed


section \<open>Invariants of the reachable meshes\<close>

lemma linked_split_body:
  assumes l: "linked s" and a: "a < length (store s)"
    and leaf: "children (store s ! a) = None" and sb: "split_body s a = (r, s')"
  shows "linked s'"
proof -
  from l have wf: "wf_store (store s)" and sym: "symmetric (store s)"
    and out: "outward_ok (store s)" by (simp_all add: linked_def)
  from split_body_store [OF sb a] obtain ids s1 where
    c: "create_new_corrWindows s a = (ids, s1)"
    and d: "s' = s1 \<or> store s' = unwired (store s) a ids \<or> store s' = rewired (store s) a ids"
    by blast
  from create_new_corrWindows_frame [OF c] have s1: "store s1 = store s" by simp
  from d show ?thesis
  proof (elim disjE)
    assume "s' = s1"
    with s1 l show ?thesis by (simp add: linked_def)
  next
    assume "store s' = unwired (store s) a ids"
    then show ?thesis
      using wf_unwired [OF wf a] symmetric_unwired [OF wf sym] outward_ok_unwired [OF wf out a]
      by (simp add: linked_def)
  next
    assume "store s' = rewired (store s) a ids"
    then show ?thesis
      using wf_rewired [OF wf a leaf] symmetric_rewired [OF wf sym out a leaf]
        outward_ok_rewired [OF wf sym out a leaf]
      by (simp add: linked_def)
  qed
qed

lemma linked_wf: "linked s \<Longrightarrow> wf_store (store s)"
  by (simp add: linked_def)

lemma linked_split:
  assumes "linked s" and "a < length (store s)"
  shows "fst (split depth s a) \<noteq> Some AttributeError \<and> linked (snd (split depth s a)) \<and>
         split_frame (store s) a (store (snd (split depth s a)))"
proof (rule split_inv [where I = linked])
  show "\<And>s. linked s \<Longrightarrow> wf_store (store s)" by (rule linked_wf)
  show "\<And>s a r s'. linked s \<Longrightarrow> a < length (store s) \<Longrightarrow>
          children (store s ! a) = None \<Longrightarrow> split_body s a = (r, s') \<Longrightarrow> linked s'"
    by (rule linked_split_body)
qed (rule assms)+

lemma linked_construct:
  assumes "construct dims sp ws = Inr s"
  shows "linked s"
proof -
  from construct_top_store [OF assms] obtain R C where "top_store R C (store s)" by blast
  then show ?thesis
    by (simp add: linked_def wf_top_store symmetric_top_store outward_ok_top_store)
qed

lemma reachable_linked: "reachable s \<Longrightarrow> linked s"
proof (induction rule: reachable.induct)
  case (constructed dims sp ws s)
  then show ?case by (rule linked_construct)
next
  case (after_split s a depth)
  then show ?case using linked_split by blast
next
  case (after_new_tier s)
  have "new_tier s = (fst (new_tier s), snd (new_tier s))" by simp
  from new_tier_frame [OF this] after_new_tier.IH show ?case by (simp add: linked_def)
qed

lemma reachable_four_mesh: "reachable four_mesh"
proof -
  have "\<not> isl (construct (9, 9) 4 5)" by code_simp
  then have "construct (9, 9) 4 5 = Inr four_mesh" by (simp add: four_mesh_def)
  then show ?thesis by (rule reachable.constructed)
qed

lemma reachable_cascade_mesh: "reachable cascade_mesh"
proof -
  have l: "0 < length (store four_mesh)" by code_simp
  note r1 = reachable.after_split [OF reachable_four_mesh l, of 3]
  have "5 < length (store (snd (split 3 four_mesh 0)))" by code_simp
  from reachable.after_split [OF r1 this, of 3] show ?thesis by (simp add: cascade_mesh_def)
qed

text \<open>
  Claim C1. Neighbour symmetry holds in every mesh that the program can build: after
  construction and after every split (also one that raised), for all cell objects \<open>a\<close>
  and \<open>b\<close> of any tier, the northern neighbour of \<open>a\<close> is \<open>b\<close> exactly when the
  southern neighbour of \<open>b\<close> is \<open>a\<close>, and the eastern neighbour of \<open>a\<close> is \<open>b\<close>
  exactly when the western neighbour of \<open>b\<close> is \<open>a\<close>.
\<close>

theorem neighbour_symmetry:
  assumes "reachable s" and "a < length (store s)" and "b < length (store s)"
  shows "(north (store s ! a) = Some b \<longleftrightarrow> south (store s ! b) = Some a) \<and>
         (east (store s ! a) = Some b \<longleftrightarrow> west (store s ! b) = Some a)"
proof -
  from reachable_linked [OF assms(1)] have sym: "symmetric (store s)" by (simp add: linked_def)
  have "north (store s ! a) = Some b \<Longrightarrow> south (store s ! b) = Some a"
    using symmetricD [OF sym assms(2), of North b] by simp
  moreover have "south (store s ! b) = Some a \<Longrightarrow> north (store s ! a) = Some b"
    using symmetricD [OF sym assms(3), of South a] by simp
  moreover have "east (store s ! a) = Some b \<Longrightarrow> west (store s ! b) = Some a"
    using symmetricD [OF sym assms(2), of East b] by simp
  moreover have "west (store s ! b) = Some a \<Longrightarrow> east (store s ! a) = Some b"
    using symmetricD [OF sym assms(3), of West a] by simp
  ultimately show ?thesis by blast
qed

theorem neighbour_symmetry_witness:
  "reachable cascade_mesh \<and> length (store cascade_mesh) = 16 \<and>
   east (store cascade_mesh ! 5) = Some 8 \<and> west (store cascade_mesh ! 8) = Some 5 \<and>
   north (store cascade_mesh ! 5) = Some 7 \<and> south (store cascade_mesh ! 7) = Some 5"
proof -
  have l: "length (store cascade_mesh) = 16" by code_simp
  have e: "east (store cascade_mesh ! 5) = Some 8" by code_simp
  have n: "north (store cascade_mesh ! 5) = Some 7" by code_simp
  have a: "5 < length (store cascade_mesh)" "8 < length (store cascade_mesh)"
    "7 < length (store cascade_mesh)" using l by simp_all
  from neighbour_symmetry [OF reachable_cascade_mesh a(1) a(2)] e
  have w: "west (store cascade_mesh ! 8) = Some 5" by simp
  from neighbour_symmetry [OF reachable_cascade_mesh a(1) a(3)] n
  have s: "south (store cascade_mesh ! 7) = Some 5" by simp
  from reachable_cascade_mesh l e w n s show ?thesis by simp
qed

text \<open>
  Claim C9. In every mesh that the program can build, a cell of a tier above 0 has a
  parent, so the reads of \<^verbatim>\<open>self.parent.north\<close> and the like in
  \<^verbatim>\<open>split_neighbs_if_needed\<close> never meet \<^verbatim>\<open>None\<close>: neither that step on such a
  cell nor \<^verbatim>\<open>split\<close> on any cell raises \<^verbatim>\<open>AttributeError\<close>, at any depth of the
  cascade.
\<close>

theorem parent_of_refined_cell:
  assumes "reachable s" and "a < length (store s)"
  shows "(0 < tier (store s ! a) \<longrightarrow> parent (store s ! a) \<noteq> None) \<and>
         (0 < tier (store s ! a) \<longrightarrow>
            fst (split_neighbs_if_needed (split depth) s a) \<noteq> Some AttributeError) \<and>
         fst (split depth s a) \<noteq> Some AttributeError"
proof -
  note l = reachable_linked [OF assms(1)]
  then have wf: "wf_store (store s)" by (simp add: linked_def)
  have p: "0 < tier (store s ! a) \<longrightarrow> parent (store s ! a) \<noteq> None"
    using wf assms(2) unfolding wf_store_def by blast
  have n: "fst (split_neighbs_if_needed (split depth) s a) \<noteq> Some AttributeError"
    if t: "0 < tier (store s ! a)"
    using split_neighbs_inv [where I = linked and sp = "split depth", OF linked_wf linked_split l assms(2) t]
    by simp
  from p n linked_split [OF l assms(2), of depth] show ?thesis by blast
qed

theorem parent_of_refined_cell_witness:
  "reachable (snd (split 3 four_mesh 0)) \<and> tier (store (snd (split 3 four_mesh 0)) ! 5) = 1 \<and>
   parent (store (snd (split 3 four_mesh 0)) ! 5) \<noteq> None \<and>
   fst (split_neighbs_if_needed (split 2) (snd (split 3 four_mesh 0)) 5) \<noteq> Some AttributeError \<and>
   fst (split 3 (snd (split 3 four_mesh 0)) 5) \<noteq> Some AttributeError"
proof -
  have l0: "0 < length (store four_mesh)" by code_simp
  note r = reachable.after_split [OF reachable_four_mesh l0, of 3]
  have l: "5 < length (store (snd (split 3 four_mesh 0)))" by code_simp
  have t: "tier (store (snd (split 3 four_mesh 0)) ! 5) = 1" by code_simp
  from parent_of_refined_cell [OF r l, of 2] parent_of_refined_cell [OF r l, of 3] t r
  show ?thesis by simp
qed


section \<open>The growth law\<close>



lemma replace_leaf_append [simp]:
  "replace_leaf a n (xs @ ys) = replace_leaf a n xs @ replace_leaf a n ys"
  by (simp add: replace_leaf_def)

lemma replace_leaf_Nil [simp]: "replace_leaf a n [] = []"
  by (simp add: replace_leaf_def)




















end
